theory Spec2Isabelle
  imports Main "HOL-Library.FSet" "HOL-Library.Signed_Division"
begin

section \<open>The metadata journal of the MDS (MDLog.cc)\<close>

text \<open>
  A shallow embedding of \<^verbatim>\<open>MDLog\<close>: the segment table layered over the journal
  stream, the appender with its segment-boundary policy, the trimmer and the replayer.
  Every member function of the source is a function from the log's state to an error or
  the new state; an \<^verbatim>\<open>assert\<close> that fails, a division by zero and a null callback that
  is dereferenced are error values. The coarse \<^verbatim>\<open>mds_lock\<close> makes each member function
  atomic; the replay thread is run to completion in one step (the host keeps submits
  away until replay is done). Offsets and counters are unbounded integers: no claim
  depends on the wrap-around of \<^verbatim>\<open>off_t\<close> or \<^verbatim>\<open>int\<close>.
\<close>

subsection \<open>Data model\<close>

type_synonym off_t = int

text \<open>
  Modelled from the spec: the enumeration of event types (LogEvent.h) is not part of the
  file. An event's tag is the reserved subtree-map checkpoint or any other type.
\<close>

datatype event_type = EVENT_SUBTREEMAP | EVENT_OTHER nat

text \<open>
  \<^verbatim>\<open>LogEvent\<close>: the type tag and the bytes that \<^verbatim>\<open>encode_payload\<close> produces. The
  back-reference \<^verbatim>\<open>_segment\<close> is set on submit and on replay and read by nobody in this
  file, so it is not kept.
\<close>

record log_event =
  le_type :: event_type
  payload :: string

text \<open>
  The buffer \<^verbatim>\<open>submit_entry\<close> hands to the journaler: \<^verbatim>\<open>sizeof(le->_type)\<close> bytes of
  tag (a 32-bit integer) followed by the payload.
\<close>

definition encoded_size :: "log_event \<Rightarrow> int" where
  "encoded_size le = 4 + int (length (payload le))"

text \<open>
  \<^verbatim>\<open>Context\<close>: a completion callback. \<^verbatim>\<open>Caller n\<close> is a callback supplied by the caller
  of the log (opaque, named by a number); \<^verbatim>\<open>C_MDL_WroteSubtreeMap\<close> is the log's own
  completion for a checkpoint, which runs \<^verbatim>\<open>_logged_subtree_map\<close>.
\<close>

datatype Context = Caller nat | C_MDL_WroteSubtreeMap off_t

datatype error =
    AssertFailed string
  | DivByZero
  | NullDeref
  | ReplayBlocked

text \<open>
  \<^verbatim>\<open>LogSegment\<close>: the offset of its opening checkpoint and its event count. A segment
  object is identified by its offset: every segment the source creates is
  \<^verbatim>\<open>segments[pos] = new LogSegment(pos)\<close>, so a pointer comparison in the source is a
  comparison of offsets here.
\<close>

record log_segment =
  offset :: off_t
  ls_num_events :: int

definition LogSegment :: "off_t \<Rightarrow> log_segment" where
  "LogSegment pos = \<lparr>offset = pos, ls_num_events = 0\<rparr>"

text \<open>
  \<^verbatim>\<open>map<off_t,LogSegment*>\<close>: an association list in ascending key order.
  \<open>map_store\<close> is \<^verbatim>\<open>m[k] = v\<close> (insert, or replace the value of an existing key),
  \<open>map_erase\<close> is \<^verbatim>\<open>m.erase(k)\<close>, \<open>map_count\<close> is \<^verbatim>\<open>m.count(k)\<close>.
\<close>

type_synonym segment_map = "(off_t \<times> log_segment) list"

fun map_store :: "off_t \<Rightarrow> log_segment \<Rightarrow> segment_map \<Rightarrow> segment_map" where
  "map_store k v [] = [(k, v)]"
| "map_store k v ((k', v') # m) =
     (if k < k' then (k, v) # (k', v') # m
      else if k = k' then (k, v) # m
      else (k', v') # map_store k v m)"

definition map_erase :: "off_t \<Rightarrow> segment_map \<Rightarrow> segment_map" where
  "map_erase k m = filter (\<lambda>kv. fst kv \<noteq> k) m"

definition map_count :: "off_t \<Rightarrow> segment_map \<Rightarrow> bool" where
  "map_count k m = (k \<in> fst ` set m)"

text \<open>
  The invariant of the table: the keys of a \<^verbatim>\<open>std::map\<close> are strictly increasing, and
  every segment sits under its own offset.
\<close>

definition segments_ok :: "segment_map \<Rightarrow> bool" where
  "segments_ok m = (sorted_wrt (<) (map fst m) \<and> list_all (\<lambda>kv. offset (snd kv) = fst kv) m)"

text \<open>
  \<^verbatim>\<open>le->_segment->num_events++\<close> on \<^verbatim>\<open>segments.rbegin()->second\<close>: the count of the
  newest segment goes up by one.
\<close>

fun bump_last :: "segment_map \<Rightarrow> segment_map" where
  "bump_last [] = []"
| "bump_last [(k, ls)] = [(k, ls\<lparr>ls_num_events := ls_num_events ls + 1\<rparr>)]"
| "bump_last (kv # m) = kv # bump_last m"

text \<open>The sum of the event counts of the live segments.\<close>

definition segment_events :: "segment_map \<Rightarrow> int" where
  "segment_events m = sum_list (map (\<lambda>kv. ls_num_events (snd kv)) m)"

subsection \<open>The journal stream\<close>

text \<open>
  Modelled from the spec: \<^verbatim>\<open>Journaler\<close> (osdc/Journaler.cc) is not part of the file. It
  is the byte-addressed, append-only stream of the spec: three offsets, the entries
  appended with the offset each starts at, the callbacks waiting for a flush and for the
  head to be written, and whether it is active. The event codec is external as well, so
  an entry is kept as the event it encodes and takes \<open>encoded_size\<close> bytes.
\<close>

record journaler =
  expire_pos :: off_t
  read_pos :: off_t
  write_pos :: off_t
  entries :: "(off_t \<times> log_event) list"
  waitfor_flush :: "Context list"
  waitfor_head :: "Context option list"
  active :: bool

definition new_Journaler :: journaler where
  "new_Journaler = \<lparr>expire_pos = 0, read_pos = 0, write_pos = 0, entries = [],
     waitfor_flush = [], waitfor_head = [], active = False\<rparr>"

definition Journaler_reset :: "journaler \<Rightarrow> journaler" where
  "Journaler_reset j = j\<lparr>expire_pos := 0, read_pos := 0, write_pos := 0, entries := [],
     active := True\<rparr>"

definition Journaler_write_head :: "Context option \<Rightarrow> journaler \<Rightarrow> journaler" where
  "Journaler_write_head c j = j\<lparr>waitfor_head := waitfor_head j @ [c]\<rparr>"

definition append_entry :: "log_event \<Rightarrow> journaler \<Rightarrow> journaler" where
  "append_entry le j = j\<lparr>entries := entries j @ [(write_pos j, le)],
     write_pos := write_pos j + encoded_size le\<rparr>"

definition Journaler_flush :: "Context option \<Rightarrow> journaler \<Rightarrow> journaler" where
  "Journaler_flush c j =
     (case c of None \<Rightarrow> j | Some k \<Rightarrow> j\<lparr>waitfor_flush := waitfor_flush j @ [k]\<rparr>)"

definition is_readable :: "journaler \<Rightarrow> bool" where
  "is_readable j = (map_of (entries j) (read_pos j) \<noteq> None)"

definition try_read_entry :: "journaler \<Rightarrow> (log_event \<times> journaler) option" where
  "try_read_entry j =
     (case map_of (entries j) (read_pos j) of
        None \<Rightarrow> None
      | Some le \<Rightarrow> Some (le, j\<lparr>read_pos := read_pos j + encoded_size le\<rparr>))"

subsection \<open>Configuration, environment and the state of the log\<close>

text \<open>
  \<^verbatim>\<open>g_conf\<close>: the settings of the log, and the period of the global layout
  \<^verbatim>\<open>g_OSD_MDLogLayout\<close> that \<^verbatim>\<open>init_journaler\<close> copies into the log's inode.
\<close>

record g_conf =
  mds_log :: bool
  mds_log_max_events :: int
  mds_log_max_segments :: int
  mds_log_max_trimming :: int
  g_OSD_MDLogLayout_period :: int

text \<open>
  What the rest of the server answers during one call: the payload of the checkpoint that
  \<^verbatim>\<open>mdcache->create_subtree_map()\<close> builds, whether \<^verbatim>\<open>ls->try_to_expire(mds)\<close> returns
  a barrier for a segment, and the readings of \<^verbatim>\<open>g_clock.now()\<close> in microseconds, in
  the order \<^verbatim>\<open>trim\<close> takes them.
\<close>

record mds_env =
  subtree_map_payload :: string
  try_to_expire :: "log_segment \<Rightarrow> bool"
  now :: "nat \<Rightarrow> int"

text \<open>
  Modelled from the spec: \<^verbatim>\<open>Logger\<close> (common/Logger.h) is not part of the file. It is
  the metric sink of the spec, named counters and gauges: \<^verbatim>\<open>inc\<close> adds to one,
  \<^verbatim>\<open>set\<close> overwrites it. The logger is taken to exist (\<^verbatim>\<open>reopen_logger\<close> has run), as
  the unguarded \<^verbatim>\<open>logger->\<close> calls of the source need.
\<close>

type_synonym logger = "string \<Rightarrow> int"

definition logger_inc :: "string \<Rightarrow> int \<Rightarrow> logger \<Rightarrow> logger" where
  "logger_inc key n l = l(key := l key + n)"

definition logger_set :: "string \<Rightarrow> int \<Rightarrow> logger \<Rightarrow> logger" where
  "logger_set key v l = l(key := v)"

text \<open>
  The members of \<^verbatim>\<open>MDLog\<close>. \<open>trimming_segments\<close> holds the offsets of the segments that
  are expiring. \<open>period\<close> is \<^verbatim>\<open>log_inode.layout.period()\<close>. Three fields record what the
  log does to the world around it: \<open>finished\<close> lists the caller's callbacks that were
  run with their result, \<open>replayed\<close> the events applied to
  the cache by \<^verbatim>\<open>le->replay(mds)\<close>, and \<open>replay_thread_created\<close> that
  \<^verbatim>\<open>replay_thread.create()\<close> was called.
\<close>

record mdlog =
  journaler :: journaler
  segments :: segment_map
  trimming_segments :: "off_t fset"
  num_events :: int
  max_events :: int
  max_segments :: int
  unflushed :: nat
  capped :: bool
  writing_subtree_map :: bool
  period :: int
  waitfor_replay :: "Context list"
  replay_thread_created :: bool
  logger :: logger
  finished :: "(nat \<times> int) list"
  replayed :: "log_event list"

text \<open>
  Modelled from the spec: the two accessors of MDLog.h. The maximum key identifies the
  current segment; \<^verbatim>\<open>get_current_segment\<close> is null on an empty table.
  \<^verbatim>\<open>get_last_segment_offset\<close> is only called where the table is not empty.
\<close>

definition get_current_segment :: "mdlog \<Rightarrow> log_segment option" where
  "get_current_segment s = (if segments s = [] then None else Some (snd (last (segments s))))"

definition get_last_segment_offset :: "mdlog \<Rightarrow> off_t" where
  "get_last_segment_offset s = fst (last (segments s))"

subsection \<open>Completions\<close>

text \<open>
  \<^verbatim>\<open>_logged_subtree_map\<close> clears the guard of the checkpoint in flight. Modelled from the
  spec: the class \<^verbatim>\<open>C_MDL_WroteSubtreeMap\<close> (MDLog.h) is the completion that clears
  \<^verbatim>\<open>writing_subtree_map\<close> once the checkpoint is durable, so finishing it runs
  \<^verbatim>\<open>_logged_subtree_map\<close>; finishing a caller's callback is recorded in \<open>finished\<close>.
\<close>

definition logged_subtree_map :: "off_t \<Rightarrow> mdlog \<Rightarrow> mdlog" where
  "logged_subtree_map off s = s\<lparr>writing_subtree_map := False\<rparr>"

text \<open>\<^verbatim>\<open>c->finish(r); delete c\<close>.\<close>

fun finish_context :: "Context \<Rightarrow> int \<Rightarrow> mdlog \<Rightarrow> mdlog" where
  "finish_context (Caller n) r s = s\<lparr>finished := finished s @ [(n, r)]\<rparr>"
| "finish_context (C_MDL_WroteSubtreeMap off) r s = logged_subtree_map off s"

fun finish_contexts :: "Context list \<Rightarrow> int \<Rightarrow> mdlog \<Rightarrow> mdlog" where
  "finish_contexts [] r s = s"
| "finish_contexts (c # cs) r s = finish_contexts cs r (finish_context c r s)"

subsection \<open>The appender\<close>

text \<open>
  \<^verbatim>\<open>submit_entry\<close> between the test of the master switch and the segment-boundary
  policy: the event is counted in the newest segment and in the log, encoded and appended
  to the journal; with a callback the journal is flushed, without one \<open>unflushed\<close> grows.
  (\<^verbatim>\<open>le->update_segment()\<close> touches none of the fields kept here.)
\<close>

definition submit_entry_append :: "log_event \<Rightarrow> Context option \<Rightarrow> mdlog \<Rightarrow> error + mdlog" where
  "submit_entry_append le c s =
     (if segments s = [] then Inl (AssertFailed ''!segments.empty()'')
      else
        let s1 = s\<lparr>segments := bump_last (segments s), num_events := num_events s + 1\<rparr> in
        if capped s1 then Inl (AssertFailed ''!capped'')
        else
          let s2 = s1\<lparr>journaler := append_entry le (journaler s1)\<rparr>;
              s3 = s2\<lparr>logger :=
                     logger_set ''wrpos'' (write_pos (journaler s2))
                       (logger_set ''ev'' (num_events s2)
                         (logger_inc ''evadd'' 1 (logger s2)))\<rparr>
          in Inr (case c of
                    Some k \<Rightarrow> s3\<lparr>unflushed := 0,
                                 journaler := Journaler_flush (Some k) (journaler s3)\<rparr>
                  | None \<Rightarrow> s3\<lparr>unflushed := unflushed s3 + 1\<rparr>))"

text \<open>
  The condition under which \<^verbatim>\<open>submit_entry\<close> goes on to \<^verbatim>\<open>start_new_segment\<close>. The
  operands of \<^verbatim>\<open>&&\<close> are evaluated left to right, so the divisions by the period are only
  reached on a non-empty table with no checkpoint in flight; \<^verbatim>\<open>/\<close> on \<^verbatim>\<open>off_t\<close>
  truncates towards zero.
\<close>

definition new_segment_due :: "mdlog \<Rightarrow> error + bool" where
  "new_segment_due s =
     (let last_seg = get_last_segment_offset s in
      if segments s = [] then Inr False
      else if writing_subtree_map s then Inr False
      else if period s = 0 then Inl DivByZero
      else Inr (write_pos (journaler s) sdiv period s \<noteq> last_seg sdiv period s \<and>
                write_pos (journaler s) - last_seg > period s sdiv 2))"

definition wait_for_sync :: "g_conf \<Rightarrow> Context option \<Rightarrow> mdlog \<Rightarrow> error + mdlog" where
  "wait_for_sync conf c s =
     (if mds_log conf then Inr (s\<lparr>journaler := Journaler_flush c (journaler s)\<rparr>)
      else case c of
             None \<Rightarrow> Inl NullDeref
           | Some k \<Rightarrow> Inr (finish_context k 0 s))"

lemma submit_entry_append_wsm:
  "submit_entry_append le c s = Inr s' \<Longrightarrow> writing_subtree_map s' = writing_subtree_map s"
  by (auto simp: submit_entry_append_def Let_def split: if_splits option.splits)

lemma new_segment_due_wsm:
  "new_segment_due s = Inr True \<Longrightarrow> \<not> writing_subtree_map s"
  by (auto simp: new_segment_due_def Let_def split: if_splits)

function submit_entry :: "g_conf \<Rightarrow> mds_env \<Rightarrow> log_event \<Rightarrow> Context option \<Rightarrow> mdlog \<Rightarrow> error + mdlog"
  and start_new_segment :: "g_conf \<Rightarrow> mds_env \<Rightarrow> Context option \<Rightarrow> mdlog \<Rightarrow> error + mdlog"
where
  "submit_entry conf env le c s =
     (if \<not> mds_log conf then Inr (case c of None \<Rightarrow> s | Some k \<Rightarrow> finish_context k 0 s)
      else case submit_entry_append le c s of
             Inl e \<Rightarrow> Inl e
           | Inr s' \<Rightarrow>
               (case new_segment_due s' of
                  Inl e \<Rightarrow> Inl e
                | Inr due \<Rightarrow> if due then start_new_segment conf env None s' else Inr s'))"
| "start_new_segment conf env onsync s =
     (if writing_subtree_map s then Inl (AssertFailed ''!writing_subtree_map'')
      else
        let pos = write_pos (journaler s);
            s1 = s\<lparr>segments := map_store pos (LogSegment pos) (segments s),
                   writing_subtree_map := True\<rparr>;
            le = \<lparr>le_type = EVENT_SUBTREEMAP, payload = subtree_map_payload env\<rparr>
        in case submit_entry conf env le (Some (C_MDL_WroteSubtreeMap pos)) s1 of
             Inl e \<Rightarrow> Inl e
           | Inr s2 \<Rightarrow>
               (case (case onsync of None \<Rightarrow> Inr s2 | Some k \<Rightarrow> wait_for_sync conf (Some k) s2) of
                  Inl e \<Rightarrow> Inl e
                | Inr s3 \<Rightarrow>
                    Inr (s3\<lparr>logger := logger_set ''seg'' (int (length (segments s3)))
                                        (logger_inc ''segadd'' 1 (logger s3))\<rparr>)))"
  by pat_completeness auto
termination
  by (relation "measure (\<lambda>x. case x of
         Inl (conf, env, le, c, s) \<Rightarrow> (if writing_subtree_map s then 0 else 2)
       | Inr (conf, env, onsync, s) \<Rightarrow> (if writing_subtree_map s then 0 else 1))")
     (auto dest: submit_entry_append_wsm new_segment_due_wsm)

declare submit_entry.simps [simp del] start_new_segment.simps [simp del]

subsection \<open>The trimmer\<close>

text \<open>
  \<^verbatim>\<open>_trimmed\<close>: the newest segment stays unless the log is capped; otherwise the
  segment's events leave the total, the expire position moves to the segment's offset when
  it is the oldest, and the segment leaves the table.
\<close>

definition trimmed :: "log_segment \<Rightarrow> mdlog \<Rightarrow> error + mdlog" where
  "trimmed ls s =
     (if \<not> capped s \<and>
         (case get_current_segment s of None \<Rightarrow> False | Some cur \<Rightarrow> offset cur = offset ls)
      then Inr s
      else
        let s1 = s\<lparr>num_events := num_events s - ls_num_events ls\<rparr> in
        if \<not> map_count (offset ls) (segments s1) then Inl (AssertFailed ''segments.count(ls->offset)'')
        else
          let s2 = (if offset (snd (hd (segments s1))) = offset ls
                    then s1\<lparr>journaler := (journaler s1)\<lparr>expire_pos := offset ls\<rparr>,
                            logger := logger_set ''expos'' (offset ls) (logger s1)\<rparr>
                    else s1);
              s3 = s2\<lparr>segments := map_erase (offset ls) (segments s2)\<rparr>
          in Inr (s3\<lparr>logger :=
                        logger_inc ''segtrm'' 1
                          (logger_set ''seg'' (int (length (segments s3)))
                            (logger_inc ''evtrm'' (ls_num_events ls)
                              (logger_set ''ev'' (num_events s3) (logger s3))))\<rparr>))"

text \<open>
  \<^verbatim>\<open>try_trim\<close>: with a barrier the segment joins the trimming set (the barrier's
  finisher will call \<^verbatim>\<open>_maybe_trimmed\<close>); without one it is expired at once.
\<close>

definition try_trim :: "mds_env \<Rightarrow> log_segment \<Rightarrow> mdlog \<Rightarrow> error + mdlog" where
  "try_trim env ls s =
     (case (if try_to_expire env ls
            then Inr (s\<lparr>trimming_segments := finsert (offset ls) (trimming_segments s)\<rparr>)
            else trimmed ls s) of
        Inl e \<Rightarrow> Inl e
      | Inr s' \<Rightarrow> Inr (s'\<lparr>logger := logger_set ''segtrmg'' (int (fcard (trimming_segments s')))
                                       (logger s')\<rparr>))"

text \<open>
  The loop of \<^verbatim>\<open>trim\<close>. The iterator \<^verbatim>\<open>p\<close> is the list of entries still to visit:
  it is advanced before \<^verbatim>\<open>try_trim\<close>, which erases at most the entry just left behind.
  \<open>k\<close> counts the readings of the clock. After \<^verbatim>\<open>try_trim\<close> the source reads
  \<^verbatim>\<open>ls->num_events\<close> once more, also when \<^verbatim>\<open>_trimmed\<close> has deleted the segment; the
  value is the one the segment had.
\<close>

fun trim_loop :: "g_conf \<Rightarrow> mds_env \<Rightarrow> int \<Rightarrow> nat \<Rightarrow> segment_map \<Rightarrow> int \<Rightarrow> mdlog \<Rightarrow> error + mdlog" where
  "trim_loop conf env stop k [] left s = Inr s"
| "trim_loop conf env stop k ((key, ls) # p) left s =
     (if \<not> ((max_events s \<ge> 0 \<and> left > max_events s) \<or>
             (max_segments s \<ge> 0 \<and>
              int (length (segments s)) - int (fcard (trimming_segments s)) > max_segments s))
      then Inr s
      else if stop < now env k then Inr s
      else if int (fcard (trimming_segments s)) \<ge> mds_log_max_trimming conf then Inr s
      else
        case (if offset ls |\<in>| trimming_segments s then Inr s else try_trim env ls s) of
          Inl e \<Rightarrow> Inl e
        | Inr s' \<Rightarrow> trim_loop conf env stop (Suc k) p (left - ls_num_events ls) s')"

definition trim :: "g_conf \<Rightarrow> mds_env \<Rightarrow> mdlog \<Rightarrow> error + mdlog" where
  "trim conf env s =
     (if segments s = [] then Inr s
      else trim_loop conf env (now env 0 + 2000000) 1 (segments s) (num_events s) s)"

definition flush :: "g_conf \<Rightarrow> mds_env \<Rightarrow> mdlog \<Rightarrow> error + mdlog" where
  "flush conf env s =
     (let s1 = (if unflushed s \<noteq> 0 then s\<lparr>journaler := Journaler_flush None (journaler s)\<rparr> else s)
      in trim conf env (s1\<lparr>unflushed := 0\<rparr>))"

definition cap :: "mdlog \<Rightarrow> mdlog" where
  "cap s = s\<lparr>capped := True\<rparr>"

subsection \<open>Creating a log\<close>

text \<open>
  Modelled from the spec: the constructor of MDLog.h. A log starts with no events, an
  empty segment table, nothing trimming, not capped, no checkpoint in flight, and the
  budgets of the configuration.
\<close>

definition new_MDLog :: "g_conf \<Rightarrow> mdlog" where
  "new_MDLog conf = \<lparr>journaler = new_Journaler, segments = [], trimming_segments = {||},
     num_events = 0, max_events = mds_log_max_events conf,
     max_segments = mds_log_max_segments conf, unflushed = 0, capped = False,
     writing_subtree_map = False, period = 0, waitfor_replay = [],
     replay_thread_created = False, logger = (\<lambda>key. 0), finished = [], replayed = []\<rparr>"

definition init_journaler :: "g_conf \<Rightarrow> mdlog \<Rightarrow> mdlog" where
  "init_journaler conf s = s\<lparr>period := g_OSD_MDLogLayout_period conf, journaler := new_Journaler\<rparr>"

definition create :: "g_conf \<Rightarrow> Context option \<Rightarrow> mdlog \<Rightarrow> mdlog" where
  "create conf c s =
     (let s1 = init_journaler conf s;
          s2 = s1\<lparr>journaler := Journaler_reset (journaler s1)\<rparr>;
          s3 = s2\<lparr>journaler := Journaler_write_head c (journaler s2)\<rparr>
      in s3\<lparr>logger := logger_set ''wrpos'' (write_pos (journaler s3))
                         (logger_set ''expos'' (expire_pos (journaler s3)) (logger s3))\<rparr>)"

subsection \<open>The replayer\<close>

text \<open>
  \<^verbatim>\<open>replay\<close>: the read position goes back to the expire position first; an empty journal
  completes the callback at once, otherwise the callback waits and the replay thread is
  created.
\<close>

definition replay :: "Context option \<Rightarrow> mdlog \<Rightarrow> error + mdlog" where
  "replay c s =
     (if \<not> active (journaler s) then Inl (AssertFailed ''journaler->is_active()'')
      else
        let s1 = s\<lparr>journaler := (journaler s)\<lparr>read_pos := expire_pos (journaler s)\<rparr>\<rparr> in
        if read_pos (journaler s1) = write_pos (journaler s1)
        then Inr (case c of None \<Rightarrow> s1 | Some k \<Rightarrow> finish_context k 0 s1)
        else
          let s2 = (case c of None \<Rightarrow> s1 | Some k \<Rightarrow> s1\<lparr>waitfor_replay := waitfor_replay s1 @ [k]\<rparr>) in
          if num_events s2 \<noteq> 0 then Inl (AssertFailed ''num_events == 0'')
          else Inr (s2\<lparr>replay_thread_created := True\<rparr>))"

text \<open>
  The loop of \<^verbatim>\<open>_replay_thread\<close>, with \<^verbatim>\<open>new_expire_pos\<close> as its first argument. The
  thread waits while nothing is readable below the write position; nothing more arrives in
  a stream that is already written, so that wait never ends (\<open>ReplayBlocked\<close>).
\<close>

function replay_loop :: "off_t \<Rightarrow> mdlog \<Rightarrow> error + (off_t \<times> mdlog)" where
  "replay_loop new_expire_pos s =
     (if \<not> is_readable (journaler s) \<and> read_pos (journaler s) < write_pos (journaler s)
      then Inl ReplayBlocked
      else if \<not> is_readable (journaler s) \<and> read_pos (journaler s) = write_pos (journaler s)
      then Inr (new_expire_pos, s)
      else if \<not> is_readable (journaler s) then Inl (AssertFailed ''journaler->is_readable()'')
      else
        case try_read_entry (journaler s) of
          None \<Rightarrow> Inl (AssertFailed ''r'')
        | Some (le, j) \<Rightarrow>
            let pos = read_pos (journaler s);
                s1 = s\<lparr>journaler := j\<rparr>;
                s2 = (if le_type le = EVENT_SUBTREEMAP
                      then let m = map_store pos (LogSegment pos) (segments s1)
                           in s1\<lparr>segments := m, logger := logger_set ''seg'' (int (length m)) (logger s1)\<rparr>
                      else s1);
                s3 = (if segments s2 = [] then s2
                      else s2\<lparr>replayed := replayed s2 @ [le], num_events := num_events s2 + 1\<rparr>);
                new_expire_pos' = (if segments s2 \<noteq> [] \<and> new_expire_pos = 0 then pos else new_expire_pos)
            in replay_loop new_expire_pos' (s3\<lparr>logger := logger_set ''rdpos'' pos (logger s3)\<rparr>))"
  by pat_completeness auto


lemma encoded_size_pos: "0 < encoded_size le"
  by (simp add: encoded_size_def)

lemma try_read_entry_measure:
  assumes "try_read_entry j = Some (le, j')"
  shows "length (filter (\<lambda>pe. read_pos j' \<le> fst pe) (entries j'))
       < length (filter (\<lambda>pe. read_pos j \<le> fst pe) (entries j))"
proof -
  from assms have m: "map_of (entries j) (read_pos j) = Some le"
    and j': "j' = j\<lparr>read_pos := read_pos j + encoded_size le\<rparr>"
    by (auto simp: try_read_entry_def split: option.splits)
  let ?Q = "\<lambda>pe::off_t \<times> log_event. read_pos j \<le> fst pe"
  let ?P = "\<lambda>pe::off_t \<times> log_event. read_pos j + encoded_size le \<le> fst pe"
  have mem: "(read_pos j, le) \<in> set (filter ?Q (entries j))"
    using map_of_SomeD [OF m] by simp
  have notP: "\<not> ?P (read_pos j, le)"
    using encoded_size_pos [of le] by simp
  have "filter ?P (entries j) = filter ?P (filter ?Q (entries j))"
    using encoded_size_pos [of le] by (auto intro!: filter_cong)
  moreover have "length (filter ?P (filter ?Q (entries j))) < length (filter ?Q (entries j))"
    using mem notP length_filter_less [of "(read_pos j, le)" "filter ?Q (entries j)" ?P]
    by blast
  ultimately show ?thesis by (simp add: j')
qed

termination replay_loop
  by (relation "measure (\<lambda>(n, s). length (filter (\<lambda>pe. read_pos (journaler s) \<le> fst pe)
                                            (entries (journaler s))))")
     (auto simp: Let_def dest: try_read_entry_measure)

declare replay_loop.simps [simp del]

text \<open>
  \<^verbatim>\<open>_replay_thread\<close>: the loop starts with \<^verbatim>\<open>new_expire_pos\<close> at the expire position;
  afterwards the read and expire positions go to \<^verbatim>\<open>new_expire_pos\<close> and the waiters
  are completed with 0.
\<close>

definition replay_thread :: "mdlog \<Rightarrow> error + mdlog" where
  "replay_thread s =
     (case replay_loop (expire_pos (journaler s)) s of
        Inl e \<Rightarrow> Inl e
      | Inr (new_expire_pos, s1) \<Rightarrow>
          if read_pos (journaler s1) \<noteq> write_pos (journaler s1)
          then Inl (AssertFailed ''journaler->get_read_pos() == journaler->get_write_pos()'')
          else
            let s2 = s1\<lparr>journaler := (journaler s1)\<lparr>read_pos := new_expire_pos,
                                                      expire_pos := new_expire_pos\<rparr>,
                        logger := logger_set ''expos'' new_expire_pos (logger s1)\<rparr>;
                ls = waitfor_replay s2
            in Inr (finish_contexts ls 0 (s2\<lparr>waitfor_replay := []\<rparr>)))"

subsection \<open>Concrete inputs\<close>

text \<open>
  A configuration with the log enabled, no event budget and a budget of one segment, and
  an environment in which no segment has a barrier and the clock stands still.
\<close>

definition example_conf :: g_conf where
  "example_conf = \<lparr>mds_log = True, mds_log_max_events = -1, mds_log_max_segments = 1,
     mds_log_max_trimming = 20, g_OSD_MDLogLayout_period = 1024\<rparr>"

definition example_env :: mds_env where
  "example_env = \<lparr>subtree_map_payload = ''map'', try_to_expire = (\<lambda>ls. False),
     now = (\<lambda>k. 0)\<rparr>"

definition example_event :: log_event where
  "example_event = \<lparr>le_type = EVENT_OTHER 1, payload = ''A''\<rparr>"

definition disabled_conf :: g_conf where
  "disabled_conf = example_conf\<lparr>mds_log := False\<rparr>"

text \<open>
  A recovered journal holding one entry, with the read position already at the write
  position while the expire position is still at the start.
\<close>

definition read_at_end_log :: mdlog where
  "read_at_end_log = (new_MDLog example_conf)\<lparr>journaler :=
     \<lparr>expire_pos = 0, read_pos = 5, write_pos = 5, entries = [(0, example_event)],
      waitfor_flush = [], waitfor_head = [], active = True\<rparr>\<rparr>"

text \<open>A recovered journal with nothing between the expire and the write position.\<close>

definition empty_journal_log :: mdlog where
  "empty_journal_log = (new_MDLog example_conf)\<lparr>journaler :=
     \<lparr>expire_pos = 5, read_pos = 5, write_pos = 5, entries = [(0, example_event)],
      waitfor_flush = [], waitfor_head = [], active = True\<rparr>\<rparr>"

text \<open>Scenario (d) of the spec: three segments at 0, 2048 and 4096, nothing trimming.\<close>

definition three_segment_log :: mdlog where
  "three_segment_log = (new_MDLog example_conf)\<lparr>
     journaler := \<lparr>expire_pos = 0, read_pos = 0, write_pos = 6144, entries = [],
                   waitfor_flush = [], waitfor_head = [], active = True\<rparr>,
     segments := [(0, \<lparr>offset = 0, ls_num_events = 3\<rparr>),
                  (2048, \<lparr>offset = 2048, ls_num_events = 4\<rparr>),
                  (4096, \<lparr>offset = 4096, ls_num_events = 5\<rparr>)],
     num_events := 12\<rparr>"

text \<open>Scenario (e) of the spec: one segment, both budgets exceeded, not capped.\<close>

definition one_segment_log :: mdlog where
  "one_segment_log = (new_MDLog example_conf)\<lparr>
     journaler := \<lparr>expire_pos = 0, read_pos = 0, write_pos = 32, entries = [],
                   waitfor_flush = [], waitfor_head = [], active = True\<rparr>,
     segments := [(0, \<lparr>offset = 0, ls_num_events = 6\<rparr>)],
     num_events := 6, max_events := 0, max_segments := 0, period := 1024\<rparr>"

text \<open>
  The table invariant the trimmer relies on, and the relation between the expire position
  and the table that \<^verbatim>\<open>trim\<close> keeps: the expire position is at or below every key.
\<close>

definition expire_below :: "mdlog \<Rightarrow> bool" where
  "expire_below s = list_all (\<lambda>kv. expire_pos (journaler s) \<le> fst kv) (segments s)"

text \<open>Sequencing of calls: the next call runs on the state the previous one returned.\<close>

definition and_then :: "error + 'a \<Rightarrow> ('a \<Rightarrow> error + 'b) \<Rightarrow> error + 'b" where
  "and_then r f = (case r of Inl e \<Rightarrow> Inl e | Inr x \<Rightarrow> f x)"

text \<open>\<^verbatim>\<open>replay\<close> followed by the run of the replay thread it created.\<close>

definition replay_to_end :: "Context option \<Rightarrow> mdlog \<Rightarrow> error + mdlog" where
  "replay_to_end c s = and_then (replay c s) replay_thread"

definition subtree_map_event :: log_event where
  "subtree_map_event = \<lparr>le_type = EVENT_SUBTREEMAP, payload = ''map''\<rparr>"

text \<open>
  Scenario (f) of the spec: a recovered journal holding two events, a checkpoint at offset
  10 and one more event, to be replayed from offset 0 into a fresh log.
\<close>

definition mid_checkpoint_log :: mdlog where
  "mid_checkpoint_log = (new_MDLog example_conf)\<lparr>journaler :=
     \<lparr>expire_pos = 0, read_pos = 0, write_pos = 22,
      entries = [(0, \<lparr>le_type = EVENT_OTHER 1, payload = ''A''\<rparr>),
                 (5, \<lparr>le_type = EVENT_OTHER 1, payload = ''B''\<rparr>),
                 (10, subtree_map_event),
                 (17, \<lparr>le_type = EVENT_OTHER 2, payload = ''D''\<rparr>)],
      waitfor_flush = [], waitfor_head = [], active = True\<rparr>\<rparr>"

text \<open>A recovered journal holding a checkpoint at offset 0 and one event after it.\<close>

definition checkpoint_first_log :: mdlog where
  "checkpoint_first_log = (new_MDLog example_conf)\<lparr>journaler :=
     \<lparr>expire_pos = 0, read_pos = 0, write_pos = 12,
      entries = [(0, subtree_map_event), (7, example_event)],
      waitfor_flush = [], waitfor_head = [], active = True\<rparr>\<rparr>"

text \<open>One segment at 0, the write position at 32 and a period of 8 bytes.\<close>

definition boundary_log :: mdlog where
  "boundary_log = one_segment_log\<lparr>period := 8\<rparr>"

text \<open>
  Scenario (b) of the spec: on a created log, a new segment is started at offset 0, five
  events are submitted and the log is flushed.
\<close>

definition five_events_flushed :: "error + mdlog" where
  "five_events_flushed =
     and_then (and_then (and_then (and_then (and_then (and_then
       (start_new_segment example_conf example_env None
          (create example_conf None (new_MDLog example_conf)))
       (submit_entry example_conf example_env example_event None))
       (submit_entry example_conf example_env example_event None))
       (submit_entry example_conf example_env example_event None))
       (submit_entry example_conf example_env example_event None))
       (submit_entry example_conf example_env example_event None))
       (flush example_conf example_env)"

section \<open>Properties\<close>

subsection \<open>Basic facts\<close>

lemma map_store_not_Nil [simp]: "map_store k v m \<noteq> []"
  by (induction k v m rule: map_store.induct) auto

lemma bump_last_eq_Nil [simp]: "(bump_last m = []) = (m = [])"
  by (induction m rule: bump_last.induct) auto

lemma and_then_Inr [simp]: "and_then (Inr x) f = f x"
  by (simp add: and_then_def)

lemma map_fst_bump_last [simp]: "map fst (bump_last m) = map fst m"
  by (induction m rule: bump_last.induct) auto

lemma fst_last_bump_last [simp]: "fst (last (bump_last m)) = fst (last m)"
  by (induction m rule: bump_last.induct) auto

lemma map_count_bump_last [simp]: "map_count k (bump_last m) = map_count k m"
proof -
  have "fst ` set (bump_last m) = fst ` set m"
    using map_fst_bump_last [of m] by (metis set_map)
  then show ?thesis by (simp add: map_count_def)
qed

lemma map_count_map_store [simp]: "map_count k (map_store k v m)"
  by (induction k v m rule: map_store.induct) (auto simp: map_count_def)

lemma finish_context_frame [simp]:
  "segments (finish_context k r s) = segments s"
  "num_events (finish_context k r s) = num_events s"
  "journaler (finish_context k r s) = journaler s"
  "capped (finish_context k r s) = capped s"
  by (cases k; simp add: logged_subtree_map_def)+

lemma submit_entry_disabled:
  "\<not> mds_log conf \<Longrightarrow>
   submit_entry conf env le c s = Inr (case c of None \<Rightarrow> s | Some k \<Rightarrow> finish_context k 0 s)"
  by (simp add: submit_entry.simps)

lemma new_segment_due_in_flight:
  "writing_subtree_map s \<Longrightarrow> new_segment_due s = Inr False"
  by (simp add: new_segment_due_def Let_def)

lemma submit_entry_in_flight:
  "mds_log conf \<Longrightarrow> writing_subtree_map s \<Longrightarrow>
   submit_entry conf env le c s = submit_entry_append le c s"
  by (auto simp: submit_entry.simps new_segment_due_in_flight submit_entry_append_wsm
           split: sum.splits)

lemma logger_simps [simp]:
  "logger_set key v l key' = (if key' = key then v else l key')"
  "logger_inc key n l key' = (if key' = key then l key + n else l key')"
  by (simp_all add: logger_set_def logger_inc_def)

lemma Journaler_flush_frame [simp]:
  "expire_pos (Journaler_flush c j) = expire_pos j"
  "read_pos (Journaler_flush c j) = read_pos j"
  "write_pos (Journaler_flush c j) = write_pos j"
  "entries (Journaler_flush c j) = entries j"
  "active (Journaler_flush c j) = active j"
  by (simp_all add: Journaler_flush_def split: option.splits)

lemma submit_entry_append_Inr:
  assumes "submit_entry_append le c s = Inr s'"
  shows "segments s \<noteq> []" "\<not> capped s"
    "num_events s' = num_events s + 1"
    "segments s' = bump_last (segments s)"
    "write_pos (journaler s') = write_pos (journaler s) + encoded_size le"
    "expire_pos (journaler s') = expire_pos (journaler s)"
    "active (journaler s') = active (journaler s)"
    "capped s' = capped s"
    "period s' = period s"
    "logger s' ''segadd'' = logger s ''segadd''"
  using assms
  by (auto simp: submit_entry_append_def Let_def append_entry_def split: if_splits option.splits)

lemma submit_entry_append_succeeds:
  "segments s \<noteq> [] \<Longrightarrow> \<not> capped s \<Longrightarrow> \<exists>s'. submit_entry_append le c s = Inr s'"
  by (simp add: submit_entry_append_def Let_def)

lemma start_new_segment_enabled:
  assumes "mds_log conf" "\<not> writing_subtree_map s"
  shows "start_new_segment conf env None s =
     (case submit_entry_append \<lparr>le_type = EVENT_SUBTREEMAP, payload = subtree_map_payload env\<rparr>
             (Some (C_MDL_WroteSubtreeMap (write_pos (journaler s))))
             (s\<lparr>segments := map_store (write_pos (journaler s)) (LogSegment (write_pos (journaler s))) (segments s),
                writing_subtree_map := True\<rparr>) of
        Inl e \<Rightarrow> Inl e
      | Inr s2 \<Rightarrow> Inr (s2\<lparr>logger := logger_set ''seg'' (int (length (segments s2)))
                                        (logger_inc ''segadd'' 1 (logger s2))\<rparr>))"
  using assms by (auto simp: start_new_segment.simps Let_def submit_entry_in_flight split: sum.splits)

lemma start_new_segment_Inr:
  assumes "mds_log conf" "\<not> writing_subtree_map s" "start_new_segment conf env None s = Inr s'"
  shows "num_events s' = num_events s + 1"
    "segments s' = bump_last (map_store (write_pos (journaler s)) (LogSegment (write_pos (journaler s))) (segments s))"
    "write_pos (journaler s') = write_pos (journaler s) + encoded_size \<lparr>le_type = EVENT_SUBTREEMAP, payload = subtree_map_payload env\<rparr>"
    "expire_pos (journaler s') = expire_pos (journaler s)"
    "active (journaler s') = active (journaler s)"
    "writing_subtree_map s'"
    "logger s' ''segadd'' = logger s ''segadd'' + 1"
proof -
  let ?s1 = "s\<lparr>segments := map_store (write_pos (journaler s)) (LogSegment (write_pos (journaler s))) (segments s),
                writing_subtree_map := True\<rparr>"
  from assms(3) obtain s2 where
    a: "submit_entry_append \<lparr>le_type = EVENT_SUBTREEMAP, payload = subtree_map_payload env\<rparr>
          (Some (C_MDL_WroteSubtreeMap (write_pos (journaler s)))) ?s1 = Inr s2"
    and s': "s' = s2\<lparr>logger := logger_set ''seg'' (int (length (segments s2)))
                                        (logger_inc ''segadd'' 1 (logger s2))\<rparr>"
    unfolding start_new_segment_enabled [OF assms(1,2)] by (auto split: sum.splits)
  note A = submit_entry_append_Inr [OF a] submit_entry_append_wsm [OF a]
  show "num_events s' = num_events s + 1"
    "segments s' = bump_last (map_store (write_pos (journaler s)) (LogSegment (write_pos (journaler s))) (segments s))"
    "write_pos (journaler s') = write_pos (journaler s) + encoded_size \<lparr>le_type = EVENT_SUBTREEMAP, payload = subtree_map_payload env\<rparr>"
    "expire_pos (journaler s') = expire_pos (journaler s)"
    "active (journaler s') = active (journaler s)"
    "writing_subtree_map s'"
    "logger s' ''segadd'' = logger s ''segadd'' + 1"
    using A by (simp_all add: s')
qed

lemma submit_entry_enabled:
  "mds_log conf \<Longrightarrow> submit_entry conf env le c s =
     (case submit_entry_append le c s of
        Inl e \<Rightarrow> Inl e
      | Inr s' \<Rightarrow>
          (case new_segment_due s' of
             Inl e \<Rightarrow> Inl e
           | Inr due \<Rightarrow> if due then start_new_segment conf env None s' else Inr s'))"
  by (simp add: submit_entry.simps)

lemma submit_entry_grows:
  assumes "mds_log conf" "submit_entry conf env le c s = Inr s'"
  shows "num_events s < num_events s'"
    "write_pos (journaler s) < write_pos (journaler s')"
    "expire_pos (journaler s') = expire_pos (journaler s)"
    "active (journaler s') = active (journaler s)"
proof -
  from assms obtain s1 due where a: "submit_entry_append le c s = Inr s1"
    and d: "new_segment_due s1 = Inr due"
    and r: "if due then start_new_segment conf env None s1 = Inr s' else s' = s1"
    by (auto simp: submit_entry_enabled split: sum.splits if_splits)
  note A = submit_entry_append_Inr [OF a]
  have pos: "0 < encoded_size x" for x by (rule encoded_size_pos)
  have "num_events s < num_events s' \<and> write_pos (journaler s) < write_pos (journaler s') \<and>
       expire_pos (journaler s') = expire_pos (journaler s) \<and> active (journaler s') = active (journaler s)"
  proof (cases due)
    case True
    with d have w: "\<not> writing_subtree_map s1" by (auto dest: new_segment_due_wsm)
    from True r have "start_new_segment conf env None s1 = Inr s'" by simp
    note S = start_new_segment_Inr [OF assms(1) w this]
    show ?thesis
      using A S pos [of le] pos [of "\<lparr>le_type = EVENT_SUBTREEMAP, payload = subtree_map_payload env\<rparr>"]
      by simp
  next
    case False
    with r have "s' = s1" by simp
    then show ?thesis
      using A pos [of le] by simp
  qed
  then show "num_events s < num_events s'"
    "write_pos (journaler s) < write_pos (journaler s')"
    "expire_pos (journaler s') = expire_pos (journaler s)"
    "active (journaler s') = active (journaler s)"
    by simp_all
qed

lemma submit_entry_succeeds:
  assumes "mds_log conf" "segments s \<noteq> []" "\<not> capped s"
    "period s \<noteq> 0 \<or> writing_subtree_map s"
  shows "\<exists>s'. submit_entry conf env le c s = Inr s'"
proof -
  from submit_entry_append_succeeds [OF assms(2,3)]
  obtain s1 where a: "submit_entry_append le c s = Inr s1" by blast
  note A = submit_entry_append_Inr [OF a] submit_entry_append_wsm [OF a]
  from A assms(4) obtain due where d: "new_segment_due s1 = Inr due"
    by (auto simp: new_segment_due_def Let_def)
  show ?thesis
  proof (cases due)
    case False
    then show ?thesis using a d assms(1) by (simp add: submit_entry_enabled)
  next
    case True
    with d have w: "\<not> writing_subtree_map s1" by (auto dest: new_segment_due_wsm)
    let ?s2 = "s1\<lparr>segments := map_store (write_pos (journaler s1))
                  (LogSegment (write_pos (journaler s1))) (segments s1),
                writing_subtree_map := True\<rparr>"
    have "segments ?s2 \<noteq> []" "\<not> capped ?s2" using A assms(3) by simp_all
    from submit_entry_append_succeeds [OF this]
    obtain s3 where "submit_entry_append
        \<lparr>le_type = EVENT_SUBTREEMAP, payload = subtree_map_payload env\<rparr>
        (Some (C_MDL_WroteSubtreeMap (write_pos (journaler s1)))) ?s2 = Inr s3"
      by blast
    then have "\<exists>s'. start_new_segment conf env None s1 = Inr s'"
      unfolding start_new_segment_enabled [OF assms(1) w] by simp
    then show ?thesis using a d True assms(1) by (simp add: submit_entry_enabled)
  qed
qed

subsection \<open>The segment-boundary policy\<close>

text \<open>
  C4: a submit to the enabled log that returns has started a new segment (one more
  \<^verbatim>\<open>segadd\<close>, a checkpoint in flight, a segment keyed by the write position reached by
  the append) if and only if no checkpoint was in flight, the write position after the
  append and the last segment offset lie in different periods, and their distance exceeds
  half a period. Otherwise no segment is started: the event is counted in the newest
  segment and nothing else changes in the table.
\<close>

theorem segment_boundary_policy:
  assumes "mds_log conf" "submit_entry conf env le c s = Inr s'"
  shows "if \<not> writing_subtree_map s \<and>
            (write_pos (journaler s) + encoded_size le) sdiv period s
               \<noteq> get_last_segment_offset s sdiv period s \<and>
            (write_pos (journaler s) + encoded_size le) - get_last_segment_offset s
               > period s sdiv 2
         then logger s' ''segadd'' = logger s ''segadd'' + 1 \<and> writing_subtree_map s' \<and>
              map_count (write_pos (journaler s) + encoded_size le) (segments s')
         else logger s' ''segadd'' = logger s ''segadd'' \<and>
              writing_subtree_map s' = writing_subtree_map s \<and>
              segments s' = bump_last (segments s)"
proof -
  let ?wp = "write_pos (journaler s) + encoded_size le"
  let ?last = "get_last_segment_offset s"
  from assms obtain s1 due where a: "submit_entry_append le c s = Inr s1"
    and d: "new_segment_due s1 = Inr due"
    and r: "if due then start_new_segment conf env None s1 = Inr s' else s' = s1"
    by (auto simp: submit_entry_enabled split: sum.splits if_splits)
  note A = submit_entry_append_Inr [OF a] submit_entry_append_wsm [OF a]
  have last1: "get_last_segment_offset s1 = ?last"
    using A by (simp add: get_last_segment_offset_def)
  have due: "due = (\<not> writing_subtree_map s \<and> ?wp sdiv period s \<noteq> ?last sdiv period s \<and>
                   ?wp - ?last > period s sdiv 2)"
    using d A last1 by (auto simp: new_segment_due_def Let_def split: if_splits)
  show ?thesis
  proof (cases due)
    case True
    with d have w: "\<not> writing_subtree_map s1" by (auto dest: new_segment_due_wsm)
    from True r have "start_new_segment conf env None s1 = Inr s'" by simp
    note S = start_new_segment_Inr [OF assms(1) w this]
    have "map_count ?wp (segments s')" using S(2) A by simp
    then show ?thesis using True due S A by simp
  next
    case False
    with r have "s' = s1" by simp
    then show ?thesis using False due A by auto
  qed
qed

theorem segment_boundary_policy_witness:
  "\<exists>s'. submit_entry example_conf example_env example_event None boundary_log = Inr s' \<and>
        logger s' ''segadd'' = 1 \<and> writing_subtree_map s' \<and> map_count 37 (segments s')"
proof -
  have c: "mds_log example_conf" by (simp add: example_conf_def)
  have h: "segments boundary_log \<noteq> []" "\<not> capped boundary_log"
    "period boundary_log \<noteq> 0 \<or> writing_subtree_map boundary_log"
    by (simp_all add: boundary_log_def one_segment_log_def new_MDLog_def)
  from submit_entry_succeeds [OF c h] obtain s' where
    s: "submit_entry example_conf example_env example_event None boundary_log = Inr s'"
    by blast
  have v: "\<not> writing_subtree_map boundary_log" "write_pos (journaler boundary_log) = 32"
    "encoded_size example_event = 5" "get_last_segment_offset boundary_log = 0"
    "period boundary_log = 8" "logger boundary_log ''segadd'' = 0"
    by (simp_all add: boundary_log_def one_segment_log_def new_MDLog_def example_event_def
          encoded_size_def get_last_segment_offset_def)
  have "(37::int) sdiv 8 = 4" "(8::int) sdiv 2 = 4"
    by (simp_all add: signed_divide_int_def)
  then show ?thesis
    using segment_boundary_policy [OF c s] s v by simp
qed

subsection \<open>The table after create\<close>

text \<open>
  C9, as the code has it: \<^verbatim>\<open>create\<close> does not touch the segment table, so after
  \<^verbatim>\<open>create\<close> on a fresh log the table is still empty. It is \<^verbatim>\<open>start_new_segment\<close>,
  called next, that succeeds on the created log and makes the table non-empty.
\<close>

theorem create_leaves_segments:
  "segments (create conf c s) = segments s \<and>
   segments (create conf c (new_MDLog conf)) = [] \<and>
   (\<exists>s'. start_new_segment conf env onsync (create conf c (new_MDLog conf)) = Inr s' \<and>
         segments s' \<noteq> [])"
proof -
  let ?s0 = "create conf c (new_MDLog conf)"
  have 1: "segments (create conf c s) = segments s" for s
    by (simp add: create_def init_journaler_def Let_def)
  have 2: "segments (new_MDLog conf) = []"
    by (simp add: new_MDLog_def)
  have w: "\<not> writing_subtree_map ?s0" "\<not> capped ?s0"
    by (simp_all add: create_def init_journaler_def new_MDLog_def Let_def)
  have 3: "\<exists>s'. start_new_segment conf env onsync ?s0 = Inr s' \<and> segments s' \<noteq> []"
  proof (cases "mds_log conf")
    case True
    then show ?thesis using w
      by (cases onsync)
         (auto simp: start_new_segment.simps Let_def submit_entry_in_flight submit_entry_append_def
               wait_for_sync_def split: option.splits)
  next
    case False
    then show ?thesis using w
      by (cases onsync)
         (auto simp: start_new_segment.simps Let_def submit_entry_disabled logged_subtree_map_def
               wait_for_sync_def split: option.splits Context.splits)
  qed
  from 1 2 3 show ?thesis by simp
qed

text \<open>
  The claim as the spec states it (the table is non-empty after \<^verbatim>\<open>create\<close>) fails on a
  fresh log.
\<close>

theorem create_empty_table_counterexample:
  "segments (create example_conf None (new_MDLog example_conf)) = []"
  by (simp add: create_def init_journaler_def new_MDLog_def Let_def)

subsection \<open>The disabled log\<close>

text \<open>
  C8: with the master switch \<^verbatim>\<open>mds_log\<close> off, \<^verbatim>\<open>submit_entry\<close> and
  \<^verbatim>\<open>wait_for_sync\<close> run the caller's callback at once with result 0 and change nothing
  else in the log: no event is counted, encoded or appended. Without a callback
  \<^verbatim>\<open>submit_entry\<close> changes nothing at all.
\<close>

theorem disabled_log_short_circuits:
  assumes "\<not> mds_log conf"
  shows "submit_entry conf env le (Some (Caller n)) s = Inr (s\<lparr>finished := finished s @ [(n, 0)]\<rparr>) \<and>
         submit_entry conf env le None s = Inr s \<and>
         wait_for_sync conf (Some (Caller n)) s = Inr (s\<lparr>finished := finished s @ [(n, 0)]\<rparr>)"
  using assms by (simp add: submit_entry_disabled wait_for_sync_def)

theorem disabled_log_witness:
  "submit_entry disabled_conf example_env example_event (Some (Caller 7)) (new_MDLog disabled_conf)
     = Inr ((new_MDLog disabled_conf)\<lparr>finished := [(7, 0)]\<rparr>) \<and>
   submit_entry disabled_conf example_env example_event None (new_MDLog disabled_conf)
     = Inr (new_MDLog disabled_conf) \<and>
   wait_for_sync disabled_conf (Some (Caller 7)) (new_MDLog disabled_conf)
     = Inr ((new_MDLog disabled_conf)\<lparr>finished := [(7, 0)]\<rparr>)"
proof -
  have h: "\<not> mds_log disabled_conf"
    by (simp add: disabled_conf_def example_conf_def)
  have f: "finished (new_MDLog disabled_conf) = []"
    by (simp add: new_MDLog_def)
  show ?thesis
    using disabled_log_short_circuits [OF h, of example_env example_event 7 "new_MDLog disabled_conf"]
    by (simp add: f)
qed

subsection \<open>Starting a replay\<close>

text \<open>
  C6, as the code has it: \<^verbatim>\<open>replay\<close> moves the read position back to the expire position
  first, in every case, and tests for the empty journal afterwards. So the callback is run
  at once with result 0, and no replay thread is created, exactly when the expire position
  equals the write position at the call; otherwise (with no event counted) the callback is
  queued and the thread is created.
\<close>

theorem replay_tests_expire_pos:
  assumes "active (journaler s)"
  shows "replay (Some (Caller n)) s =
     (if expire_pos (journaler s) = write_pos (journaler s)
      then Inr (s\<lparr>journaler := (journaler s)\<lparr>read_pos := expire_pos (journaler s)\<rparr>,
                  finished := finished s @ [(n, 0)]\<rparr>)
      else if num_events s \<noteq> 0 then Inl (AssertFailed ''num_events == 0'')
      else Inr (s\<lparr>journaler := (journaler s)\<lparr>read_pos := expire_pos (journaler s)\<rparr>,
                  waitfor_replay := waitfor_replay s @ [Caller n],
                  replay_thread_created := True\<rparr>))"
  using assms by (simp add: replay_def Let_def)

theorem replay_tests_expire_pos_witness:
  "replay (Some (Caller 1)) empty_journal_log =
     Inr (empty_journal_log\<lparr>finished := [(1, 0)]\<rparr>) \<and>
   replay (Some (Caller 1)) read_at_end_log =
     Inr (read_at_end_log\<lparr>journaler := (journaler read_at_end_log)\<lparr>read_pos := 0\<rparr>,
            waitfor_replay := [Caller 1], replay_thread_created := True\<rparr>)"
proof -
  have h: "active (journaler read_at_end_log)" "active (journaler empty_journal_log)"
    by (simp_all add: read_at_end_log_def empty_journal_log_def)
  show ?thesis
    using replay_tests_expire_pos [OF h(1), of 1] replay_tests_expire_pos [OF h(2), of 1]
    by (simp add: read_at_end_log_def empty_journal_log_def new_MDLog_def)
qed

text \<open>
  The claim as the spec states it fails where the read position equals the write position
  and the expire position lies below: the callback is not run and the thread is created.
\<close>

theorem replay_read_at_end_counterexample:
  "read_pos (journaler read_at_end_log) = write_pos (journaler read_at_end_log) \<and>
   \<not> isl (replay (Some (Caller 1)) read_at_end_log) \<and>
   replay_thread_created (projr (replay (Some (Caller 1)) read_at_end_log)) \<and>
   finished (projr (replay (Some (Caller 1)) read_at_end_log)) = [] \<and>
   waitfor_replay (projr (replay (Some (Caller 1)) read_at_end_log)) = [Caller 1]"
  by (simp add: replay_def read_at_end_log_def new_MDLog_def Let_def)

lemma replay_assert_iff:
  assumes "active (journaler s)"
  shows "(replay c s = Inl (AssertFailed ''num_events == 0'')) =
         (expire_pos (journaler s) \<noteq> write_pos (journaler s) \<and> num_events s \<noteq> 0)"
  using assms by (auto simp: replay_def Let_def split: option.splits)

text \<open>
  C10: on an active journal \<^verbatim>\<open>replay\<close> fails the assertion \<^verbatim>\<open>num_events == 0\<close> exactly
  when the journal is not empty (the expire position differs from the write position) and
  an event is counted. In particular it fails in every state that a submit has just
  produced from a log with a non-negative count and its expire position at or below its
  write position.
\<close>

theorem replay_needs_zero_events:
  assumes "active (journaler s)"
  shows "((replay c s = Inl (AssertFailed ''num_events == 0'')) =
           (expire_pos (journaler s) \<noteq> write_pos (journaler s) \<and> num_events s \<noteq> 0)) \<and>
         (\<forall>conf env le k s0.
            mds_log conf \<and> 0 \<le> num_events s0 \<and>
            expire_pos (journaler s0) \<le> write_pos (journaler s0) \<and>
            submit_entry conf env le k s0 = Inr s \<longrightarrow>
            replay c s = Inl (AssertFailed ''num_events == 0''))"
proof (intro conjI allI impI)
  show "(replay c s = Inl (AssertFailed ''num_events == 0'')) =
        (expire_pos (journaler s) \<noteq> write_pos (journaler s) \<and> num_events s \<noteq> 0)"
    by (rule replay_assert_iff [OF assms])
next
  fix conf env le k s0
  assume h: "mds_log conf \<and> 0 \<le> num_events s0 \<and>
            expire_pos (journaler s0) \<le> write_pos (journaler s0) \<and>
            submit_entry conf env le k s0 = Inr s"
  then have g: "num_events s0 < num_events s" "write_pos (journaler s0) < write_pos (journaler s)"
      "expire_pos (journaler s) = expire_pos (journaler s0)"
    using submit_entry_grows [of conf env le k s0 s] by simp_all
  with h have "expire_pos (journaler s) \<noteq> write_pos (journaler s) \<and> num_events s \<noteq> 0"
    by auto
  then show "replay c s = Inl (AssertFailed ''num_events == 0'')"
    using replay_assert_iff [OF assms] by simp
qed

theorem replay_needs_zero_events_witness:
  "\<exists>s. submit_entry example_conf example_env example_event None one_segment_log = Inr s \<and>
       replay (Some (Caller 1)) s = Inl (AssertFailed ''num_events == 0'')"
proof -
  have c: "mds_log example_conf" by (simp add: example_conf_def)
  have h: "segments one_segment_log \<noteq> []" "\<not> capped one_segment_log"
    "period one_segment_log \<noteq> 0 \<or> writing_subtree_map one_segment_log"
    "0 \<le> num_events one_segment_log"
    "expire_pos (journaler one_segment_log) \<le> write_pos (journaler one_segment_log)"
    "active (journaler one_segment_log)"
    by (simp_all add: one_segment_log_def new_MDLog_def)
  from submit_entry_succeeds [OF c h(1,2,3)] obtain s where
    s: "submit_entry example_conf example_env example_event None one_segment_log = Inr s"
    by blast
  have a: "active (journaler s)"
    using submit_entry_grows(4) [OF c s] h(6) by simp
  show ?thesis
    using replay_needs_zero_events [OF a, of "Some (Caller 1)"] c h(4,5) s by blast
qed

subsection \<open>The segment table under the trimmer\<close>

lemma segments_ok_Nil [simp]: "segments_ok []"
  by (simp add: segments_ok_def)

lemma segments_ok_offset:
  "segments_ok m \<Longrightarrow> (k, ls) \<in> set m \<Longrightarrow> offset ls = k"
  by (auto simp: segments_ok_def list_all_iff)

lemma segments_ok_split:
  assumes "segments_ok (A @ (key, ls) # p)"
  shows "offset ls = key"
    and "\<forall>kv \<in> set A. fst kv < key"
    and "\<forall>kv \<in> set p. key < fst kv"
    and "segments_ok (A @ p)"
    and "segments_ok p"
  using assms
  by (auto simp: segments_ok_def sorted_wrt_append list_all_iff)

lemma map_erase_split:
  assumes "segments_ok (A @ (key, ls) # p)"
  shows "map_erase key (A @ (key, ls) # p) = A @ p"
proof -
  have "filter (\<lambda>kv. fst kv \<noteq> key) A = A"
    using segments_ok_split(2) [OF assms] by (auto intro!: filter_True)
  moreover have "filter (\<lambda>kv. fst kv \<noteq> key) p = p"
    using segments_ok_split(3) [OF assms] by (auto intro!: filter_True)
  ultimately show ?thesis by (simp add: map_erase_def)
qed

lemma map_count_split [simp]:
  "map_count key (A @ (key, ls) # p)" "map_count key ((key, ls) # p)"
  by (simp_all add: map_count_def image_Un)

lemma hd_is_visited:
  assumes "segments_ok (A @ (key, ls) # p)"
  shows "(offset (snd (hd (A @ (key, ls) # p))) = key) = (A = [])"
proof (cases A)
  case Nil
  then show ?thesis using segments_ok_split(1) [OF assms] by simp
next
  case (Cons a A')
  obtain k v where a: "a = (k, v)" by (cases a)
  have "offset v = k" using assms Cons a by (auto simp: segments_ok_def)
  moreover have "k < key" using segments_ok_split(2) [OF assms] Cons a by auto
  ultimately show ?thesis using Cons a by simp
qed

lemma current_is_visited:
  assumes "segments_ok (A @ (key, ls) # p)"
  shows "(offset (snd (last (A @ (key, ls) # p))) = key) = (p = [])"
proof (cases "p = []")
  case True
  then show ?thesis using segments_ok_split(1) [OF assms] by simp
next
  case False
  obtain k v where l: "last p = (k, v)" by (cases "last p")
  have mem: "(k, v) \<in> set p" using False l last_in_set [of p] by simp
  then have "offset v = k" using assms segments_ok_offset [of "A @ (key, ls) # p" k v] by simp
  moreover have "key < k" using segments_ok_split(3) [OF assms] mem by auto
  ultimately show ?thesis using False l by simp
qed

text \<open>What \<open>trimmed\<close> does to the entry the loop has just left.\<close>

lemma trimmed_current:
  assumes "\<not> capped s" "segments_ok (segments s)" "segments s = A @ [(key, ls)]"
  shows "trimmed ls s = Inr s"
  using assms current_is_visited [of A key ls "[]"]
  by (simp add: trimmed_def get_current_segment_def)

lemma trimmed_erases:
  assumes "segments_ok (segments s)" "segments s = A @ (key, ls) # p" "capped s \<or> p \<noteq> []"
  shows "\<exists>s'. trimmed ls s = Inr s' \<and> segments s' = A @ p \<and>
           num_events s' = num_events s - ls_num_events ls \<and>
           expire_pos (journaler s') = (if A = [] then key else expire_pos (journaler s)) \<and>
           capped s' = capped s \<and> trimming_segments s' = trimming_segments s \<and>
           max_events s' = max_events s \<and> max_segments s' = max_segments s"
proof -
  have ok: "segments_ok (A @ (key, ls) # p)" using assms by simp
  have off: "offset ls = key" by (rule segments_ok_split(1) [OF ok])
  have cur: "\<not> (\<not> capped s \<and>
         (case get_current_segment s of None \<Rightarrow> False | Some cur \<Rightarrow> offset cur = offset ls))"
    using assms(3) current_is_visited [OF ok] assms(2) off
    by (auto simp: get_current_segment_def)
  show ?thesis
    using cur hd_is_visited [OF ok] map_erase_split [OF ok] assms(2) off
    by (cases "A = []") (simp_all add: trimmed_def Let_def)
qed


lemma try_trim_step:
  assumes "segments_ok (segments s)" "segments s = A @ (key, ls) # p"
  shows "\<exists>s'. try_trim env ls s = Inr s' \<and> capped s' = capped s \<and>
           max_events s' = max_events s \<and> max_segments s' = max_segments s \<and>
           ((segments s' = segments s \<and> journaler s' = journaler s \<and>
             num_events s' = num_events s \<and>
             (try_to_expire env ls \<or> (\<not> capped s \<and> p = []))) \<or>
            ((capped s \<or> p \<noteq> []) \<and> \<not> try_to_expire env ls \<and> segments s' = A @ p \<and>
             num_events s' = num_events s - ls_num_events ls \<and>
             expire_pos (journaler s') = (if A = [] then key else expire_pos (journaler s)) \<and>
             trimming_segments s' = trimming_segments s))"
proof (cases "try_to_expire env ls")
  case True
  then show ?thesis by (simp add: try_trim_def)
next
  case barrier: False
  show ?thesis
  proof (cases "\<not> capped s \<and> p = []")
    case True
    then have "trimmed ls s = Inr s"
      using trimmed_current [of s A key ls] assms by simp
    then show ?thesis using barrier True by (simp add: try_trim_def)
  next
    case False
    then have "capped s \<or> p \<noteq> []" by blast
    from trimmed_erases [OF assms this] obtain s1 where
      "trimmed ls s = Inr s1" "segments s1 = A @ p"
      "num_events s1 = num_events s - ls_num_events ls"
      "expire_pos (journaler s1) = (if A = [] then key else expire_pos (journaler s))"
      "capped s1 = capped s" "trimming_segments s1 = trimming_segments s"
      "max_events s1 = max_events s" "max_segments s1 = max_segments s"
      by blast
    then show ?thesis using barrier False by (simp add: try_trim_def)
  qed
qed

lemma trim_loop_keeps_current:
  assumes "\<not> capped s" "segments_ok (segments s)" "segments s = A @ p" "segments s \<noteq> []"
  shows "\<exists>s'. trim_loop conf env stop k p left s = Inr s' \<and> \<not> capped s' \<and>
           segments s' \<noteq> [] \<and> last (segments s') = last (segments s) \<and>
           length (segments s') \<le> length (segments s)"
  using assms
proof (induction p arbitrary: A s k left)
  case Nil
  then show ?case by simp
next
  case (Cons x p)
  obtain key ls where x: "x = (key, ls)" by (cases x)
  let ?step = "if offset ls |\<in>| trimming_segments s then Inr s else try_trim env ls s"
  have split: "segments s = A @ (key, ls) # p" using Cons.prems x by simp
  from try_trim_step [OF Cons.prems(2) split, of env]
  obtain s1 where s1: "?step = Inr s1" "capped s1 = capped s"
    and seg: "segments s1 = segments s \<or> (p \<noteq> [] \<and> segments s1 = A @ p)"
    using Cons.prems(1) by (cases "offset ls |\<in>| trimming_segments s") auto
  have ok1: "segments_ok (segments s1)"
    using seg Cons.prems(2) segments_ok_split(4) [of A key ls p] split by auto
  have suffix: "\<exists>A'. segments s1 = A' @ p"
    using seg split by (metis append.assoc append_Cons append_Nil)
  have ne1: "segments s1 \<noteq> []" and last1: "last (segments s1) = last (segments s)"
    and len1: "length (segments s1) \<le> length (segments s)"
    using seg split Cons.prems(4) by auto
  from suffix obtain A' where A': "segments s1 = A' @ p" by blast
  from Cons.IH [of s1 A' "Suc k" "left - ls_num_events ls"] s1(2) Cons.prems(1) ok1 A' ne1
  obtain s' where s': "trim_loop conf env stop (Suc k) p (left - ls_num_events ls) s1 = Inr s'"
    "\<not> capped s'" "segments s' \<noteq> []" "last (segments s') = last (segments s1)"
    "length (segments s') \<le> length (segments s1)"
    by auto
  have "trim_loop conf env stop k (x # p) left s = Inr s \<or>
        trim_loop conf env stop k (x # p) left s = Inr s'"
    using s1(1) s'(1) by (simp add: x)
  then show ?case
    using s' last1 len1 Cons.prems(1,4) by auto
qed

text \<open>
  C5: in a state that is not capped (with a well-formed, non-empty segment table)
  \<^verbatim>\<open>trim\<close> returns and the newest segment is still the last entry of the table,
  whatever the budgets, the barriers and the clock are; a table of one segment is left as
  it is.
\<close>

theorem trim_keeps_current_segment:
  assumes "\<not> capped s" "segments_ok (segments s)" "segments s \<noteq> []"
  shows "\<exists>s'. trim conf env s = Inr s' \<and> segments s' \<noteq> [] \<and>
           last (segments s') = last (segments s) \<and>
           (\<forall>kv. segments s = [kv] \<longrightarrow> segments s' = [kv])"
proof -
  from trim_loop_keeps_current [OF assms(1,2) _ assms(3), of "[]" "segments s" conf env
      "now env 0 + 2000000" 1 "num_events s"]
  obtain s' where s': "trim conf env s = Inr s'" "segments s' \<noteq> []"
    "last (segments s') = last (segments s)" "length (segments s') \<le> length (segments s)"
    using assms(3) by (auto simp: trim_def)
  have "segments s' = [kv]" if "segments s = [kv]" for kv
  proof -
    from that s'(2,4) obtain y where "segments s' = [y]"
      by (cases "segments s'") auto
    with that s'(3) show ?thesis by simp
  qed
  with s' show ?thesis by blast
qed


theorem trim_keeps_current_segment_witness:
  "\<exists>s'. trim example_conf example_env one_segment_log = Inr s' \<and>
        segments s' = [(0, \<lparr>offset = 0, ls_num_events = 6\<rparr>)]"
proof -
  have h: "\<not> capped one_segment_log" "segments_ok (segments one_segment_log)"
    "segments one_segment_log \<noteq> []"
    by (simp_all add: one_segment_log_def new_MDLog_def segments_ok_def)
  show ?thesis
    using trim_keeps_current_segment [OF h, of example_conf example_env]
    by (auto simp: one_segment_log_def)
qed

lemma trim_loop_expire_below:
  assumes "segments_ok (segments s)" "segments s = A @ p" "expire_below s"
  shows "\<exists>s'. trim_loop conf env stop k p left s = Inr s' \<and>
           segments_ok (segments s') \<and> expire_below s'"
  using assms
proof (induction p arbitrary: A s k left)
  case Nil
  then show ?case by simp
next
  case (Cons x p)
  obtain key ls where x: "x = (key, ls)" by (cases x)
  let ?step = "if offset ls |\<in>| trimming_segments s then Inr s else try_trim env ls s"
  have split: "segments s = A @ (key, ls) # p" using Cons.prems x by simp
  have ok: "segments_ok (A @ (key, ls) # p)" using Cons.prems(1) split by simp
  from try_trim_step [OF Cons.prems(1) split, of env]
  obtain s1 where s1: "?step = Inr s1"
    and seg: "(segments s1 = segments s \<and> journaler s1 = journaler s) \<or>
              (segments s1 = A @ p \<and>
               expire_pos (journaler s1) = (if A = [] then key else expire_pos (journaler s)))"
    by (cases "offset ls |\<in>| trimming_segments s") auto
  have ok1: "segments_ok (segments s1)"
    using seg Cons.prems(1) segments_ok_split(4) [OF ok] by auto
  have below1: "expire_below s1"
    using seg
  proof
    assume "segments s1 = segments s \<and> journaler s1 = journaler s"
    then show ?thesis using Cons.prems(3) by (simp add: expire_below_def)
  next
    assume e: "segments s1 = A @ p \<and>
               expire_pos (journaler s1) = (if A = [] then key else expire_pos (journaler s))"
    show ?thesis
    proof (cases "A = []")
      case True
      then show ?thesis
        using e segments_ok_split(3) [OF ok]
        by (auto simp: expire_below_def list_all_iff intro: less_imp_le)
    next
      case False
      then show ?thesis
        using e Cons.prems(3) split by (auto simp: expire_below_def list_all_iff)
    qed
  qed
  have suffix: "\<exists>A'. segments s1 = A' @ p"
    using seg split by (metis append.assoc append_Cons append_Nil)
  then obtain A' where A': "segments s1 = A' @ p" by blast
  from Cons.IH [OF ok1 A' below1, of "Suc k" "left - ls_num_events ls"]
  obtain s' where s': "trim_loop conf env stop (Suc k) p (left - ls_num_events ls) s1 = Inr s'"
    "segments_ok (segments s')" "expire_below s'"
    by auto
  have "trim_loop conf env stop k (x # p) left s = Inr s \<or>
        trim_loop conf env stop k (x # p) left s = Inr s'"
    using s1 s'(1) by (simp add: x)
  then show ?case
    using s' Cons.prems(1,3) by auto
qed

lemma trim_expire_below:
  assumes "segments_ok (segments s)" "expire_below s"
  shows "\<exists>s'. trim conf env s = Inr s' \<and> segments_ok (segments s') \<and> expire_below s'"
proof (cases "segments s = []")
  case True
  then show ?thesis using assms by (simp add: trim_def)
next
  case False
  then show ?thesis
    using trim_loop_expire_below [OF assms(1) _ assms(2), of "[]" "segments s"]
    by (simp add: trim_def)
qed

lemma trim_three_segments:
  assumes seg: "segments s = [(0, a), (2048, b), (4096, c)]"
    and off: "offset a = 0" "offset b = 2048" "offset c = 4096"
    and tr: "trimming_segments s = {||}"
    and cap: "\<not> capped s"
    and budget: "max_segments s = 1"
    and mt: "0 < mds_log_max_trimming conf"
    and barrier: "\<not> try_to_expire env a" "\<not> try_to_expire env b"
    and clock: "now env 1 \<le> now env 0 + 2000000" "now env 2 \<le> now env 0 + 2000000"
  shows "\<exists>s'. trim conf env s = Inr s' \<and> segments s' = [(4096, c)] \<and>
           expire_pos (journaler s') = 2048 \<and>
           num_events s' = num_events s - ls_num_events a - ls_num_events b"
proof -
  have ok: "segments_ok (segments s)"
    using seg off by (simp add: segments_ok_def)
  \<comment> \<open>first pass: the segment at 0\<close>
  from try_trim_step [OF ok, of "[]" 0 a "[(2048, b), (4096, c)]" env] seg barrier(1)
  obtain s1 where s1: "try_trim env a s = Inr s1" "capped s1 = capped s"
    "max_events s1 = max_events s" "max_segments s1 = max_segments s"
    "segments s1 = [(2048, b), (4096, c)]" "num_events s1 = num_events s - ls_num_events a"
    "trimming_segments s1 = {||}"
    using tr by auto
  have ok1: "segments_ok (segments s1)"
    using s1(5) off by (simp add: segments_ok_def)
  \<comment> \<open>second pass: the segment at 2048\<close>
  from try_trim_step [OF ok1, of "[]" 2048 b "[(4096, c)]" env] s1(5) barrier(2)
  obtain s2 where s2: "try_trim env b s1 = Inr s2" "capped s2 = capped s1"
    "max_events s2 = max_events s1" "max_segments s2 = max_segments s1"
    "segments s2 = [(4096, c)]" "num_events s2 = num_events s1 - ls_num_events b"
    "trimming_segments s2 = {||}" "expire_pos (journaler s2) = 2048"
    using s1(7) by auto
  have ok2: "segments_ok (segments s2)"
    using s2(5) off by (simp add: segments_ok_def)
  \<comment> \<open>third pass, if the event budget asks for it: the segment at 4096 is the current one\<close>
  from try_trim_step [OF ok2, of "[]" 4096 c "[]" env] s2(5) s2(2) s1(2) cap
  obtain s3 where s3: "try_trim env c s2 = Inr s3"
    "segments s3 = segments s2" "journaler s3 = journaler s2" "num_events s3 = num_events s2"
    by auto
  let ?stop = "now env 0 + 2000000"
  let ?left1 = "num_events s - ls_num_events a"
  let ?left2 = "num_events s - ls_num_events a - ls_num_events b"
  have l3: "trim_loop conf env ?stop (Suc (Suc (Suc 0))) [(4096, c)] ?left2 s2 = Inr s2 \<or>
            trim_loop conf env ?stop (Suc (Suc (Suc 0))) [(4096, c)] ?left2 s2 = Inr s3"
    using s3(1) s2(7) off by (simp add: fcard_fempty)
  have l2: "trim_loop conf env ?stop (Suc (Suc 0)) [(2048, b), (4096, c)] ?left1 s1 =
            trim_loop conf env ?stop (Suc (Suc (Suc 0))) [(4096, c)] ?left2 s2"
    using s1 s2(1) budget mt clock(2) off
    by (simp del: trim_loop.simps
          add: trim_loop.simps(2) [of conf env ?stop "Suc (Suc 0)" 2048 b "[(4096, c)]"]
               numeral_2_eq_2 fcard_fempty)
  have l1: "trim conf env s =
            trim_loop conf env ?stop (Suc (Suc 0)) [(2048, b), (4096, c)] ?left1 s1"
    using seg s1(1) tr budget mt clock(1) off
    by (simp del: trim_loop.simps
          add: trim_loop.simps(2) [of conf env ?stop "Suc 0" 0 a "[(2048, b), (4096, c)]"]
               trim_def fcard_fempty)
  from l1 l2 l3 have "trim conf env s = Inr s2 \<or> trim conf env s = Inr s3" by simp
  then show ?thesis
    using s2 s3 s1(6) by auto
qed


text \<open>
  C1, as the code has it: \<^verbatim>\<open>_trimmed\<close> moves the expire position to the offset of the
  oldest segment as it removes that segment, not to the offset of the segment that becomes
  the oldest. So \<^verbatim>\<open>trim\<close> keeps the expire position at or below every key of a well-formed
  table, and from three segments at 0, 2048 and 4096 (nothing trimming, not capped, no
  barrier on the first two, at least one expiry allowed, the deadline not passed) a
  \<^verbatim>\<open>trim\<close> with \<^verbatim>\<open>max_segments = 1\<close> removes the segments at 0 and 2048 and leaves
  the segment at 4096 with the expire position at 2048.
\<close>

theorem trim_expire_pos_below_min_key:
  "(segments_ok (segments s) \<and> expire_below s \<longrightarrow>
      (\<exists>s'. trim conf env s = Inr s' \<and> segments_ok (segments s') \<and> expire_below s')) \<and>
   (segments s = [(0, a), (2048, b), (4096, c)] \<and>
    offset a = 0 \<and> offset b = 2048 \<and> offset c = 4096 \<and>
    trimming_segments s = {||} \<and> \<not> capped s \<and> max_segments s = 1 \<and>
    0 < mds_log_max_trimming conf \<and> \<not> try_to_expire env a \<and> \<not> try_to_expire env b \<and>
    now env 1 \<le> now env 0 + 2000000 \<and> now env 2 \<le> now env 0 + 2000000 \<longrightarrow>
      (\<exists>s'. trim conf env s = Inr s' \<and> segments s' = [(4096, c)] \<and>
            expire_pos (journaler s') = 2048 \<and>
            num_events s' = num_events s - ls_num_events a - ls_num_events b))"
  using trim_expire_below [of s conf env] trim_three_segments [of s a b c conf env]
  by blast

theorem trim_expire_pos_witness:
  "\<exists>s'. trim example_conf example_env three_segment_log = Inr s' \<and>
        segments s' = [(4096, \<lparr>offset = 4096, ls_num_events = 5\<rparr>)] \<and>
        expire_pos (journaler s') = 2048 \<and> num_events s' = 5 \<and>
        segments_ok (segments s') \<and> expire_below s'"
proof -
  have h1: "segments_ok (segments three_segment_log) \<and> expire_below three_segment_log"
    by (simp add: three_segment_log_def segments_ok_def expire_below_def)
  have h2: "segments three_segment_log =
      [(0, \<lparr>offset = 0, ls_num_events = 3\<rparr>), (2048, \<lparr>offset = 2048, ls_num_events = 4\<rparr>),
       (4096, \<lparr>offset = 4096, ls_num_events = 5\<rparr>)] \<and>
    offset \<lparr>offset = 0, ls_num_events = 3\<rparr> = 0 \<and>
    offset \<lparr>offset = 2048, ls_num_events = 4\<rparr> = 2048 \<and>
    offset \<lparr>offset = 4096, ls_num_events = 5\<rparr> = 4096 \<and>
    trimming_segments three_segment_log = {||} \<and> \<not> capped three_segment_log \<and>
    max_segments three_segment_log = 1 \<and> 0 < mds_log_max_trimming example_conf \<and>
    \<not> try_to_expire example_env \<lparr>offset = 0, ls_num_events = 3\<rparr> \<and>
    \<not> try_to_expire example_env \<lparr>offset = 2048, ls_num_events = 4\<rparr> \<and>
    now example_env 1 \<le> now example_env 0 + 2000000 \<and>
    now example_env 2 \<le> now example_env 0 + 2000000"
    by (simp add: three_segment_log_def new_MDLog_def example_conf_def example_env_def)
  have n: "num_events three_segment_log = 12"
    by (simp add: three_segment_log_def)
  show ?thesis
    using trim_expire_pos_below_min_key [of three_segment_log example_conf example_env
        "\<lparr>offset = 0, ls_num_events = 3\<rparr>" "\<lparr>offset = 2048, ls_num_events = 4\<rparr>"
        "\<lparr>offset = 4096, ls_num_events = 5\<rparr>"] h1 h2 n
    by auto
qed

text \<open>
  The claim as the spec states it fails in scenario (d): after \<^verbatim>\<open>trim\<close> the only key is
  4096 and the expire position is 2048.
\<close>

theorem trim_expire_pos_counterexample:
  "\<not> isl (trim example_conf example_env three_segment_log) \<and>
   map fst (segments (projr (trim example_conf example_env three_segment_log))) = [4096] \<and>
   expire_pos (journaler (projr (trim example_conf example_env three_segment_log))) = 2048"
  by (simp add: trim_def try_trim_def trimmed_def get_current_segment_def map_count_def
        map_erase_def three_segment_log_def new_MDLog_def example_conf_def example_env_def
        Let_def fcard_fempty)

subsection \<open>The first segment\<close>

lemma submit_entry_single_in_flight:
  assumes "mds_log conf" "writing_subtree_map s" "\<not> capped s" "segments s = [(k, ls)]"
  shows "\<exists>s'. submit_entry conf env le c s = Inr s' \<and> writing_subtree_map s' \<and> \<not> capped s' \<and>
           segments s' = [(k, ls\<lparr>ls_num_events := ls_num_events ls + 1\<rparr>)] \<and>
           num_events s' = num_events s + 1 \<and>
           expire_pos (journaler s') = expire_pos (journaler s)"
proof -
  have ne: "segments s \<noteq> []" using assms(4) by simp
  from submit_entry_append_succeeds [OF ne assms(3)]
  obtain s' where a: "submit_entry_append le c s = Inr s'" by blast
  note A = submit_entry_append_Inr [OF a] submit_entry_append_wsm [OF a]
  show ?thesis
    using a A assms by (simp add: submit_entry_in_flight)
qed

lemma start_new_segment_first:
  assumes "mds_log conf" "\<not> writing_subtree_map s" "\<not> capped s" "segments s = []"
  shows "\<exists>s'. start_new_segment conf env None s = Inr s' \<and> writing_subtree_map s' \<and>
           \<not> capped s' \<and>
           segments s' = [(write_pos (journaler s), \<lparr>offset = write_pos (journaler s), ls_num_events = 1\<rparr>)] \<and>
           num_events s' = num_events s + 1 \<and>
           expire_pos (journaler s') = expire_pos (journaler s)"
proof -
  let ?pos = "write_pos (journaler s)"
  let ?s1 = "s\<lparr>segments := map_store ?pos (LogSegment ?pos) (segments s), writing_subtree_map := True\<rparr>"
  have "segments ?s1 \<noteq> []" "\<not> capped ?s1" using assms(3) by simp_all
  from submit_entry_append_succeeds [OF this]
  obtain s2 where a: "submit_entry_append
      \<lparr>le_type = EVENT_SUBTREEMAP, payload = subtree_map_payload env\<rparr>
      (Some (C_MDL_WroteSubtreeMap ?pos)) ?s1 = Inr s2"
    by blast
  then obtain s' where s': "start_new_segment conf env None s = Inr s'"
    unfolding start_new_segment_enabled [OF assms(1,2)] by simp
  note S = start_new_segment_Inr [OF assms(1,2) s']
  note A = submit_entry_append_Inr [OF a]
  have "capped s' = capped s"
    using s' a A(8) unfolding start_new_segment_enabled [OF assms(1,2)] by auto
  then show ?thesis
    using s' S assms(3,4) by (simp add: LogSegment_def)
qed

lemma trim_single_segment:
  assumes "\<not> capped s" "segments s = [(k, ls)]" "offset ls = k"
  shows "\<exists>s'. trim conf env s = Inr s' \<and> segments s' = segments s \<and>
           journaler s' = journaler s \<and> num_events s' = num_events s"
proof -
  have ok: "segments_ok (segments s)" using assms by (simp add: segments_ok_def)
  from try_trim_step [OF ok, of "[]" k ls "[]" env] assms
  obtain s1 where "try_trim env ls s = Inr s1" "segments s1 = segments s"
    "journaler s1 = journaler s" "num_events s1 = num_events s"
    by auto
  then show ?thesis using assms(2) by (auto simp: trim_def)
qed

lemma flush_single_segment:
  assumes "\<not> capped s" "segments s = [(k, ls)]" "offset ls = k"
  shows "\<exists>s'. flush conf env s = Inr s' \<and> segments s' = segments s \<and>
           expire_pos (journaler s') = expire_pos (journaler s) \<and> num_events s' = num_events s"
proof -
  let ?s1 = "(if unflushed s \<noteq> 0 then s\<lparr>journaler := Journaler_flush None (journaler s)\<rparr> else s)\<lparr>unflushed := 0\<rparr>"
  have "\<not> capped ?s1" "segments ?s1 = [(k, ls)]" using assms by simp_all
  from trim_single_segment [OF this assms(3), of conf env]
  show ?thesis by (auto simp: flush_def Let_def)
qed

text \<open>
  C7, as the code has it: \<^verbatim>\<open>start_new_segment\<close> submits the checkpoint through
  \<^verbatim>\<open>submit_entry\<close>, so the checkpoint is counted like any other event. Starting a new
  segment at offset 0 on an enabled log with no segment and no event, submitting five
  events and flushing all return, and leave \<^verbatim>\<open>num_events == 6\<close>, a single segment at 0
  whose count is 6, and the expire position at 0.
\<close>

theorem first_segment_counts_checkpoint:
  assumes "mds_log conf"
    and "segments s = []" "num_events s = 0" "\<not> capped s" "\<not> writing_subtree_map s"
    and "write_pos (journaler s) = 0" "expire_pos (journaler s) = 0"
  shows "\<exists>s1 s2 s3 s4 s5 s6 s7.
           start_new_segment conf env None s = Inr s1 \<and>
           submit_entry conf env e1 c1 s1 = Inr s2 \<and>
           submit_entry conf env e2 c2 s2 = Inr s3 \<and>
           submit_entry conf env e3 c3 s3 = Inr s4 \<and>
           submit_entry conf env e4 c4 s4 = Inr s5 \<and>
           submit_entry conf env e5 c5 s5 = Inr s6 \<and>
           flush conf env s6 = Inr s7 \<and>
           num_events s7 = 6 \<and>
           segments s7 = [(0, \<lparr>offset = 0, ls_num_events = 6\<rparr>)] \<and>
           expire_pos (journaler s7) = 0"
proof -
  from start_new_segment_first [OF assms(1,5,4,2), of env] assms(3,6,7)
  obtain s1 where s1: "start_new_segment conf env None s = Inr s1" "writing_subtree_map s1"
    "\<not> capped s1" "segments s1 = [(0, \<lparr>offset = 0, ls_num_events = 1\<rparr>)]"
    "num_events s1 = 1" "expire_pos (journaler s1) = 0"
    by auto
  from submit_entry_single_in_flight [OF assms(1) s1(2,3,4), of env e1 c1] s1(5,6)
  obtain s2 where s2: "submit_entry conf env e1 c1 s1 = Inr s2" "writing_subtree_map s2"
    "\<not> capped s2" "segments s2 = [(0, \<lparr>offset = 0, ls_num_events = 2\<rparr>)]"
    "num_events s2 = 2" "expire_pos (journaler s2) = 0"
    by auto
  from submit_entry_single_in_flight [OF assms(1) s2(2,3,4), of env e2 c2] s2(5,6)
  obtain s3 where s3: "submit_entry conf env e2 c2 s2 = Inr s3" "writing_subtree_map s3"
    "\<not> capped s3" "segments s3 = [(0, \<lparr>offset = 0, ls_num_events = 3\<rparr>)]"
    "num_events s3 = 3" "expire_pos (journaler s3) = 0"
    by auto
  from submit_entry_single_in_flight [OF assms(1) s3(2,3,4), of env e3 c3] s3(5,6)
  obtain s4 where s4: "submit_entry conf env e3 c3 s3 = Inr s4" "writing_subtree_map s4"
    "\<not> capped s4" "segments s4 = [(0, \<lparr>offset = 0, ls_num_events = 4\<rparr>)]"
    "num_events s4 = 4" "expire_pos (journaler s4) = 0"
    by auto
  from submit_entry_single_in_flight [OF assms(1) s4(2,3,4), of env e4 c4] s4(5,6)
  obtain s5 where s5: "submit_entry conf env e4 c4 s4 = Inr s5" "writing_subtree_map s5"
    "\<not> capped s5" "segments s5 = [(0, \<lparr>offset = 0, ls_num_events = 5\<rparr>)]"
    "num_events s5 = 5" "expire_pos (journaler s5) = 0"
    by auto
  from submit_entry_single_in_flight [OF assms(1) s5(2,3,4), of env e5 c5] s5(5,6)
  obtain s6 where s6: "submit_entry conf env e5 c5 s5 = Inr s6" "writing_subtree_map s6"
    "\<not> capped s6" "segments s6 = [(0, \<lparr>offset = 0, ls_num_events = 6\<rparr>)]"
    "num_events s6 = 6" "expire_pos (journaler s6) = 0"
    by auto
  from flush_single_segment [OF s6(3,4), of conf env] s6(4,5,6)
  obtain s7 where s7: "flush conf env s6 = Inr s7"
    "segments s7 = [(0, \<lparr>offset = 0, ls_num_events = 6\<rparr>)]"
    "num_events s7 = 6" "expire_pos (journaler s7) = 0"
    by auto
  from s1(1) s2(1) s3(1) s4(1) s5(1) s6(1) s7 show ?thesis by blast
qed


theorem first_segment_counts_checkpoint_witness:
  "\<exists>s7. five_events_flushed = Inr s7 \<and> num_events s7 = 6 \<and>
         segments s7 = [(0, \<lparr>offset = 0, ls_num_events = 6\<rparr>)] \<and>
         expire_pos (journaler s7) = 0"
proof -
  let ?s = "create example_conf None (new_MDLog example_conf)"
  have c: "mds_log example_conf" by (simp add: example_conf_def)
  have h: "segments ?s = []" "num_events ?s = 0" "\<not> capped ?s" "\<not> writing_subtree_map ?s"
    "write_pos (journaler ?s) = 0" "expire_pos (journaler ?s) = 0"
    by (simp_all add: create_def init_journaler_def new_MDLog_def Let_def
          Journaler_reset_def Journaler_write_head_def new_Journaler_def)
  from first_segment_counts_checkpoint [OF c h, of example_env example_event None
      example_event None example_event None example_event None example_event None]
  show ?thesis
    by (auto simp: five_events_flushed_def)
qed

text \<open>
  The claim as the spec states it (five events counted) fails in scenario (b): the count
  is 6.
\<close>

theorem five_events_counterexample:
  "\<not> isl five_events_flushed \<and>
   num_events (projr five_events_flushed) = 6 \<and>
   segments (projr five_events_flushed) = [(0, \<lparr>offset = 0, ls_num_events = 6\<rparr>)]"
  by (simp add: five_events_flushed_def create_def init_journaler_def new_MDLog_def
        Journaler_reset_def Journaler_write_head_def new_Journaler_def
        start_new_segment.simps submit_entry.simps submit_entry_append_def new_segment_due_def
        append_entry_def Journaler_flush_def LogSegment_def encoded_size_def
        flush_def trim_def try_trim_def trimmed_def get_current_segment_def
        example_conf_def example_env_def example_event_def Let_def fcard_fempty)

subsection \<open>Replay\<close>

text \<open>
  C2, as the code has it: replaying a stream of two events, a checkpoint at \<open>pos_C\<close> and
  one more event from offset 0 into a fresh log returns; the two events before the
  checkpoint are read and not applied, a segment is created at \<open>pos_C\<close>, the checkpoint
  and the event after it are applied and counted, so \<^verbatim>\<open>num_events == 2\<close>, and the read
  and expire positions end at \<open>pos_C\<close>; the waiting callback is run with result 0.
\<close>

theorem replay_mid_log_checkpoint:
  assumes types: "le_type A \<noteq> EVENT_SUBTREEMAP" "le_type B \<noteq> EVENT_SUBTREEMAP"
      "le_type C = EVENT_SUBTREEMAP" "le_type D \<noteq> EVENT_SUBTREEMAP"
    and pos: "pos_B = encoded_size A" "pos_C = pos_B + encoded_size B"
      "pos_D = pos_C + encoded_size C"
    and stream: "entries (journaler s) = [(0, A), (pos_B, B), (pos_C, C), (pos_D, D)]"
      "write_pos (journaler s) = pos_D + encoded_size D"
      "expire_pos (journaler s) = 0" "active (journaler s)"
    and fresh: "segments s = []" "num_events s = 0" "waitfor_replay s = []"
  shows "\<exists>s1 s2. replay (Some (Caller n)) s = Inr s1 \<and> replay_thread s1 = Inr s2 \<and>
           replayed s2 = replayed s @ [C, D] \<and>
           segments s2 = [(pos_C, LogSegment pos_C)] \<and>
           read_pos (journaler s2) = pos_C \<and> expire_pos (journaler s2) = pos_C \<and>
           num_events s2 = 2 \<and> finished s2 = finished s @ [(n, 0)]"
proof -
  have sz: "0 < encoded_size A" "0 < encoded_size B" "0 < encoded_size C" "0 < encoded_size D"
    by (rule encoded_size_pos)+
  let ?s1 = "s\<lparr>journaler := (journaler s)\<lparr>read_pos := 0\<rparr>,
               waitfor_replay := [Caller n], replay_thread_created := True\<rparr>"
  have r: "replay (Some (Caller n)) s = Inr ?s1"
    using stream fresh sz pos by (simp add: replay_def Let_def)
  have ne: "pos_B \<noteq> 0" "pos_C \<noteq> 0" "pos_D \<noteq> 0" "pos_C \<noteq> pos_B" "pos_D \<noteq> pos_B" "pos_D \<noteq> pos_C"
    "pos_B \<noteq> pos_D + encoded_size D" "pos_C \<noteq> pos_D + encoded_size D" "0 \<noteq> pos_D + encoded_size D"
    "pos_D + encoded_size D \<noteq> 0" "pos_D + encoded_size D \<noteq> pos_B"
    "pos_D + encoded_size D \<noteq> pos_C" "pos_D + encoded_size D \<noteq> pos_D"
    using sz pos by simp_all
  have "\<exists>s2. replay_thread ?s1 = Inr s2 \<and>
           replayed s2 = replayed s @ [C, D] \<and>
           segments s2 = [(pos_C, LogSegment pos_C)] \<and>
           read_pos (journaler s2) = pos_C \<and> expire_pos (journaler s2) = pos_C \<and>
           num_events s2 = 2 \<and> finished s2 = finished s @ [(n, 0)]"
    using stream fresh types ne
    by (simp add: replay_thread_def replay_loop.simps is_readable_def try_read_entry_def
          Let_def pos(1,2,3) [symmetric])
  with r show ?thesis by blast
qed

theorem replay_mid_log_checkpoint_witness:
  "\<exists>s2. replay_to_end (Some (Caller 1)) mid_checkpoint_log = Inr s2 \<and>
         replayed s2 = [subtree_map_event, \<lparr>le_type = EVENT_OTHER 2, payload = ''D''\<rparr>] \<and>
         segments s2 = [(10, LogSegment 10)] \<and>
         read_pos (journaler s2) = 10 \<and> expire_pos (journaler s2) = 10 \<and>
         num_events s2 = 2 \<and> finished s2 = [(1, 0)]"
proof -
  let ?A = "\<lparr>le_type = EVENT_OTHER 1, payload = ''A''\<rparr>"
  let ?B = "\<lparr>le_type = EVENT_OTHER 1, payload = ''B''\<rparr>"
  let ?D = "\<lparr>le_type = EVENT_OTHER 2, payload = ''D''\<rparr>"
  have types: "le_type ?A \<noteq> EVENT_SUBTREEMAP" "le_type ?B \<noteq> EVENT_SUBTREEMAP"
    "le_type subtree_map_event = EVENT_SUBTREEMAP" "le_type ?D \<noteq> EVENT_SUBTREEMAP"
    by (simp_all add: subtree_map_event_def)
  have pos: "5 = encoded_size ?A" "10 = 5 + encoded_size ?B"
    "17 = 10 + encoded_size subtree_map_event"
    by (simp_all add: encoded_size_def subtree_map_event_def)
  have stream: "entries (journaler mid_checkpoint_log) =
      [(0, ?A), (5, ?B), (10, subtree_map_event), (17, ?D)]"
    "write_pos (journaler mid_checkpoint_log) = 17 + encoded_size ?D"
    "expire_pos (journaler mid_checkpoint_log) = 0" "active (journaler mid_checkpoint_log)"
    by (simp_all add: mid_checkpoint_log_def encoded_size_def)
  have fresh: "segments mid_checkpoint_log = []" "num_events mid_checkpoint_log = 0"
    "waitfor_replay mid_checkpoint_log = []" "replayed mid_checkpoint_log = []"
    "finished mid_checkpoint_log = []"
    by (simp_all add: mid_checkpoint_log_def new_MDLog_def)
  from replay_mid_log_checkpoint [OF types pos stream fresh(1,2,3), of 1]
  show ?thesis
    by (auto simp: replay_to_end_def fresh)
qed

text \<open>
  The claim as the spec states it (one event counted) fails in scenario (f): the count
  is 2.
\<close>

theorem replay_mid_log_counterexample:
  "\<not> isl (replay_to_end (Some (Caller 1)) mid_checkpoint_log) \<and>
   num_events (projr (replay_to_end (Some (Caller 1)) mid_checkpoint_log)) = 2 \<and>
   replayed (projr (replay_to_end (Some (Caller 1)) mid_checkpoint_log)) =
     [subtree_map_event, \<lparr>le_type = EVENT_OTHER 2, payload = ''D''\<rparr>]"
  by (simp add: replay_to_end_def replay_def replay_thread_def replay_loop.simps
        is_readable_def try_read_entry_def mid_checkpoint_log_def subtree_map_event_def
        new_MDLog_def encoded_size_def LogSegment_def Let_def)

subsection \<open>The event count and the segments' counts\<close>

text \<open>
  The append of \<^verbatim>\<open>submit_entry\<close> and \<^verbatim>\<open>_trimmed\<close> keep the difference between the
  log's count and the sum of the segments' counts.
\<close>

lemma segment_events_bump_last:
  "m \<noteq> [] \<Longrightarrow> segment_events (bump_last m) = segment_events m + 1"
  by (induction m rule: bump_last.induct) (auto simp: segment_events_def)

lemma submit_entry_append_keeps_count:
  assumes "submit_entry_append le c s = Inr s'"
  shows "num_events s' - segment_events (segments s') = num_events s - segment_events (segments s)"
  using submit_entry_append_Inr(1,3,4) [OF assms] by (simp add: segment_events_bump_last)

lemma trimmed_keeps_count:
  assumes "segments_ok (segments s)" "(k, ls) \<in> set (segments s)" "trimmed ls s = Inr s'"
  shows "num_events s' - segment_events (segments s') = num_events s - segment_events (segments s)"
proof -
  from split_list [OF assms(2)] obtain A p where sp: "segments s = A @ (k, ls) # p" by blast
  show ?thesis
  proof (cases "capped s \<or> p \<noteq> []")
    case True
    from trimmed_erases [OF assms(1) sp True] assms(3) sp
    show ?thesis by (auto simp: segment_events_def)
  next
    case False
    then have "trimmed ls s = Inr s"
      using trimmed_current [OF _ assms(1), of A k ls] sp by simp
    with assms(3) show ?thesis by simp
  qed
qed

text \<open>
  C3 on the replay path: \<^verbatim>\<open>_replay_thread\<close> counts every replayed event in the log's
  \<^verbatim>\<open>num_events\<close> but never in its segment. After the replay of a checkpoint and one
  event the log counts two events while the counts of its segments add up to none.
\<close>

theorem replay_leaves_segment_counts_at_zero:
  "\<not> isl (replay_to_end None checkpoint_first_log) \<and>
   num_events (projr (replay_to_end None checkpoint_first_log)) = 2 \<and>
   segments (projr (replay_to_end None checkpoint_first_log)) =
     [(0, \<lparr>offset = 0, ls_num_events = 0\<rparr>)] \<and>
   segment_events (segments (projr (replay_to_end None checkpoint_first_log))) = 0"
  by (simp add: replay_to_end_def replay_def replay_thread_def replay_loop.simps
        is_readable_def try_read_entry_def checkpoint_first_log_def subtree_map_event_def
        example_event_def new_MDLog_def encoded_size_def LogSegment_def segment_events_def
        Let_def)

end
